theory Spec2Isabelle
  imports Main "HOL-Library.Word" "HOL-Library.Sublist" "HOL-Library.Multiset"
begin

unbundle bit_operations_syntax

section \<open>JavaScript strings\<close>

text \<open>
  A JavaScript string is a sequence of UTF-16 code units; \<open>length\<close>, \<open>slice\<close>,
  \<open>replaceAll\<close> and \<open>!==\<close> all work on code units. Bytes of a Buffer are 8-bit words.
\<close>

type_synonym jsstring = "16 word list"

definition js :: "string \<Rightarrow> jsstring" where
  "js s = map of_char s"

definition isHighSurrogate :: "16 word \<Rightarrow> bool" where
  "isHighSurrogate c \<longleftrightarrow> 0xD800 \<le> c \<and> c \<le> 0xDBFF"

definition isLowSurrogate :: "16 word \<Rightarrow> bool" where
  "isLowSurrogate c \<longleftrightarrow> 0xDC00 \<le> c \<and> c \<le> 0xDFFF"

definition codePoint :: "16 word \<Rightarrow> 16 word \<Rightarrow> nat" where
  "codePoint hi lo = 0x10000 + (unat hi - 0xD800) * 0x400 + (unat lo - 0xDC00)"

text \<open>The UTF-8 bytes of one code point.\<close>

definition utf8 :: "nat \<Rightarrow> 8 word list" where
  "utf8 cp =
     (if cp < 0x80 then [of_nat cp]
      else if cp < 0x800 then [of_nat (0xC0 + cp div 64), of_nat (0x80 + cp mod 64)]
      else if cp < 0x10000 then
        [of_nat (0xE0 + cp div 4096), of_nat (0x80 + (cp div 64) mod 64),
         of_nat (0x80 + cp mod 64)]
      else
        [of_nat (0xF0 + cp div 262144), of_nat (0x80 + (cp div 4096) mod 64),
         of_nat (0x80 + (cp div 64) mod 64), of_nat (0x80 + cp mod 64)])"

text \<open>
  \<open>Buffer.from(text, 'utf8')\<close>: a surrogate pair is one four-byte character, an unpaired
  surrogate is written as U+FFFD (three bytes), every other code unit is its own code point.
\<close>

fun utf8Bytes :: "jsstring \<Rightarrow> 8 word list" where
  "utf8Bytes [] = []"
| "utf8Bytes [c] =
     (if isHighSurrogate c \<or> isLowSurrogate c then utf8 0xFFFD else utf8 (unat c))"
| "utf8Bytes (c # d # cs) =
     (if isHighSurrogate c \<and> isLowSurrogate d then utf8 (codePoint c d) @ utf8Bytes cs
      else if isHighSurrogate c \<or> isLowSurrogate c then utf8 0xFFFD @ utf8Bytes (d # cs)
      else utf8 (unat c) @ utf8Bytes (d # cs))"

text \<open>\<open>Buffer.byteLength(text, 'utf8')\<close>.\<close>

definition byteLength :: "jsstring \<Rightarrow> nat" where
  "byteLength text = length (utf8Bytes text)"

section \<open>\<open>String.prototype.replaceAll\<close> with a string pattern\<close>

text \<open>
  Matches are found left to right and do not overlap; after a match the scan resumes behind
  it. The replacement \<open>***REDACTED***\<close> has no \<open>$\<close>, so it is inserted literally. An empty
  pattern matches before every code unit and at the end.
\<close>

fun replaceScan :: "'a list \<Rightarrow> 'a list \<Rightarrow> 'a list \<Rightarrow> 'a list" where
  "replaceScan p m [] = []"
| "replaceScan p m (x # xs) =
     (if prefix p (x # xs) then m @ replaceScan p m (drop (length p - 1) xs)
      else x # replaceScan p m xs)"

definition replaceAll :: "'a list \<Rightarrow> 'a list \<Rightarrow> 'a list \<Rightarrow> 'a list" where
  "replaceAll text searchValue replaceValue =
     (if searchValue = [] then replaceValue @ concat (map (\<lambda>c. c # replaceValue) text)
      else replaceScan searchValue replaceValue text)"

section \<open>The encodings that are masked\<close>

text \<open>
  \<open>encodeURIComponent\<close>: the unreserved characters stay, every other code point becomes the
  percent-escapes of its UTF-8 bytes; an unpaired surrogate throws URIError (\<open>None\<close>).
\<close>

definition uriUnreserved :: "16 word \<Rightarrow> bool" where
  "uriUnreserved c \<longleftrightarrow>
     (0x41 \<le> c \<and> c \<le> 0x5A) \<or> (0x61 \<le> c \<and> c \<le> 0x7A) \<or> (0x30 \<le> c \<and> c \<le> 0x39) \<or>
     c \<in> set (js ''-_.!~*'' @ [0x27] @ js ''()'')"

definition hexDigit :: "8 word \<Rightarrow> 16 word" where
  "hexDigit n = js ''0123456789ABCDEF'' ! unat (n AND 15)"

definition percentEscape :: "8 word list \<Rightarrow> jsstring" where
  "percentEscape bs = concat (map (\<lambda>b. [0x25, hexDigit (drop_bit 4 b), hexDigit b]) bs)"

fun encodeURIComponent :: "jsstring \<Rightarrow> jsstring option" where
  "encodeURIComponent [] = Some []"
| "encodeURIComponent [c] =
     (if uriUnreserved c then Some [c]
      else if isHighSurrogate c \<or> isLowSurrogate c then None
      else Some (percentEscape (utf8 (unat c))))"
| "encodeURIComponent (c # d # cs) =
     (if uriUnreserved c then map_option ((#) c) (encodeURIComponent (d # cs))
      else if isHighSurrogate c \<and> isLowSurrogate d then
        map_option ((@) (percentEscape (utf8 (codePoint c d)))) (encodeURIComponent cs)
      else if isHighSurrogate c \<or> isLowSurrogate c then None
      else map_option ((@) (percentEscape (utf8 (unat c)))) (encodeURIComponent (d # cs)))"

text \<open>
  \<open>Buffer.from(value).toString('base64')\<close>: three bytes give four characters of the
  standard alphabet, six bits each; the last group is padded with \<open>=\<close>.
\<close>

definition base64Alphabet :: jsstring where
  "base64Alphabet = js ''ABCDEFGHIJKLMNOPQRSTUVWXYZabcdefghijklmnopqrstuvwxyz0123456789+/''"

definition base64Char :: "nat \<Rightarrow> 16 word" where
  "base64Char n = base64Alphabet ! (n mod 64)"

fun base64 :: "8 word list \<Rightarrow> jsstring" where
  "base64 [] = []"
| "base64 [a] =
     [base64Char (unat a div 4), base64Char (unat a mod 4 * 16), 0x3D, 0x3D]"
| "base64 [a, b] =
     [base64Char (unat a div 4), base64Char (unat a mod 4 * 16 + unat b div 16),
      base64Char (unat b mod 16 * 4), 0x3D]"
| "base64 (a # b # c # bs) =
     [base64Char (unat a div 4), base64Char (unat a mod 4 * 16 + unat b div 16),
      base64Char (unat b mod 16 * 4 + unat c div 64), base64Char (unat c mod 64)] @ base64 bs"

definition toBase64 :: "jsstring \<Rightarrow> jsstring" where
  "toBase64 v = base64 (utf8Bytes v)"

section \<open>\<open>maskSecrets\<close>\<close>

definition REDACTED :: jsstring where
  "REDACTED = js ''***REDACTED***''"

text \<open>
  One round of the loop over \<open>Object.values(secrets)\<close>. The \<open>catch\<close> around
  \<open>encodeURIComponent\<close> keeps the text as it is and goes on to the base64 form;
  \<open>Buffer.from\<close> of a string does not throw.
\<close>

definition maskValue :: "jsstring \<Rightarrow> jsstring \<Rightarrow> jsstring" where
  "maskValue masked v =
     (if v = [] then masked
      else
        let masked1 = replaceAll masked v REDACTED in
        if 4 \<le> length v then
          let masked2 =
                (case encodeURIComponent v of
                   None \<Rightarrow> masked1
                 | Some urlEncoded \<Rightarrow>
                     if urlEncoded \<noteq> v then replaceAll masked1 urlEncoded REDACTED
                     else masked1)
          in replaceAll masked2 (toBase64 v) REDACTED
        else masked1)"

text \<open>
  A \<open>Record<string, string>\<close> is the list of its entries in property order, keys distinct;
  \<open>Object.values\<close> is \<open>map snd\<close> and \<open>Object.keys\<close> is \<open>map fst\<close>.
\<close>

type_synonym secretMap = "(jsstring \<times> jsstring) list"

definition maskSecrets :: "jsstring \<Rightarrow> secretMap \<Rightarrow> jsstring" where
  "maskSecrets text secrets =
     (if text = [] then text else foldl maskValue text (map snd secrets))"

text \<open>
  The search strings one round replaces, in the order the round replaces them: the value,
  its URL form when that differs from the value, its base64 form.
\<close>

definition patterns :: "jsstring \<Rightarrow> jsstring list" where
  "patterns v =
     (if v = [] then []
      else if 4 \<le> length v then
        v # (case encodeURIComponent v of
               None \<Rightarrow> []
             | Some urlEncoded \<Rightarrow> if urlEncoded \<noteq> v then [urlEncoded] else [])
          @ [toBase64 v]
      else [v])"

text \<open>
  \<open>noStart p a\<close>: in a text that begins with \<open>a\<close>, whatever follows, no match of \<open>p\<close> starts
  inside \<open>a\<close>. Two strings cannot overlap when neither can start inside the other.
\<close>

fun noStart :: "'a list \<Rightarrow> 'a list \<Rightarrow> bool" where
  "noStart p [] = True"
| "noStart p (x # a) = (\<not> prefix p (x # a) \<and> \<not> prefix (x # a) p \<and> noStart p a)"

definition cannotOverlap :: "'a list \<Rightarrow> 'a list \<Rightarrow> bool" where
  "cannotOverlap p q \<longleftrightarrow> noStart p q \<and> noStart q p"

section \<open>\<open>truncateOutput\<close>\<close>

definition MAX_OUTPUT_BYTES :: int where
  "MAX_OUTPUT_BYTES = 1024 * 1024"

definition TRUNCATION_MESSAGE :: jsstring where
  "TRUNCATION_MESSAGE = [0x0A, 0x0A] @ js ''[Output truncated - exceeded 1MB limit]''"

text \<open>\<open>String.prototype.slice(start, end)\<close>: a negative index counts from the end.\<close>

definition slice :: "'a list \<Rightarrow> int \<Rightarrow> int \<Rightarrow> 'a list" where
  "slice s start end =
     (let len = int (length s);
          from = (if start < 0 then max (len + start) 0 else min start len);
          to = (if end < 0 then max (len + end) 0 else min end len)
      in take (nat (max (to - from) 0)) (drop (nat from) s))"

text \<open>The \<open>while\<close> loop of \<open>truncateOutput\<close>; \<open>None\<close> when it does not end.\<close>

partial_function (option) truncateWhile :: "int \<Rightarrow> jsstring \<Rightarrow> jsstring option" where
  "truncateWhile maxBytes truncated =
     (if int (byteLength truncated) > maxBytes - int (byteLength TRUNCATION_MESSAGE)
      then truncateWhile maxBytes (slice truncated 0 (- 1000))
      else Some truncated)"

text \<open>The result object \<open>{ text, truncated }\<close> is a pair.\<close>

definition truncateOutput :: "jsstring \<Rightarrow> int \<Rightarrow> (jsstring \<times> bool) option" where
  "truncateOutput text maxBytes =
     (let bytes = byteLength text in
      if int bytes \<le> maxBytes then Some (text, False)
      else map_option (\<lambda>truncated. (truncated @ TRUNCATION_MESSAGE, True))
             (truncateWhile maxBytes text))"

text \<open>\<open>String.prototype.isWellFormed\<close>: no unpaired surrogate.\<close>

fun isWellFormed :: "jsstring \<Rightarrow> bool" where
  "isWellFormed [] = True"
| "isWellFormed [c] = (\<not> isHighSurrogate c \<and> \<not> isLowSurrogate c)"
| "isWellFormed (c # d # cs) =
     (if isHighSurrogate c then isLowSurrogate d \<and> isWellFormed cs
      else \<not> isLowSurrogate c \<and> isWellFormed (d # cs))"

section \<open>\<open>injectRun\<close>\<close>

definition DEFAULT_TIMEOUT_MS :: int where
  "DEFAULT_TIMEOUT_MS = 300000"

record injectArgs =
  command :: jsstring
  args :: "jsstring list option"
  environment :: "jsstring option"
  timeout :: "int option"

text \<open>\<open>String.prototype.trim\<close> removes WhiteSpace and LineTerminator code points.\<close>

definition isWhiteSpace :: "16 word \<Rightarrow> bool" where
  "isWhiteSpace c \<longleftrightarrow>
     c \<in> {0x09, 0x0A, 0x0B, 0x0C, 0x0D, 0x20, 0xA0, 0x1680, 0x2028, 0x2029, 0x202F, 0x205F,
          0x3000, 0xFEFF} \<or> (0x2000 \<le> c \<and> c \<le> 0x200A)"

definition trim :: "jsstring \<Rightarrow> jsstring" where
  "trim s = rev (dropWhile isWhiteSpace (rev (dropWhile isWhiteSpace s)))"

text \<open>\<open>args.environment || 'development'\<close>: \<open>undefined\<close> and the empty string are falsy.\<close>

definition effectiveEnvironment :: "jsstring option \<Rightarrow> jsstring" where
  "effectiveEnvironment e =
     (case e of None \<Rightarrow> js ''development''
      | Some name \<Rightarrow> if name = [] then js ''development'' else name)"

text \<open>
  \<open>Math.min(args.timeout || DEFAULT_TIMEOUT_MS, DEFAULT_TIMEOUT_MS)\<close> on integer
  milliseconds: \<open>undefined\<close> and \<open>0\<close> are falsy.
\<close>

definition effectiveTimeout :: "int option \<Rightarrow> int" where
  "effectiveTimeout t =
     min (case t of None \<Rightarrow> DEFAULT_TIMEOUT_MS
          | Some ms \<Rightarrow> if ms = 0 then DEFAULT_TIMEOUT_MS else ms)
         DEFAULT_TIMEOUT_MS"

text \<open>
  The timeout formula as the specification words it:
  \<open>min(timeoutMs ?? defaultTimeoutMs, hardTimeoutCeilingMs)\<close>, both constants 300000.
\<close>

definition specTimeout :: "int option \<Rightarrow> int" where
  "specTimeout t = min (case t of None \<Rightarrow> 300000 | Some ms \<Rightarrow> ms) 300000"

text \<open>
  A \<open>data\<close> event carries a Buffer, of which the handler reads \<open>toString()\<close> and \<open>length\<close>.
\<close>

record buffer =
  buffer_toString :: jsstring
  buffer_length :: nat

datatype stream = Stdout | Stderr

text \<open>
  What the child does, seen from the promise. \<open>spawn\<close> itself may throw (a command with a
  NUL byte): the throw inside the executor rejects the promise with that error as it is.
  Otherwise the first of \<open>error\<close>, the timer and \<open>close\<close> settles it; \<open>close\<close> comes with the
  \<open>data\<close> events that arrived before it and the exit code (\<open>null\<close> when a signal ended the
  child).
\<close>

datatype childProcess =
    SpawnThrows jsstring
  | EmitsError jsstring
  | TimesOut
  | Closes "(stream \<times> buffer) list" "int option"

text \<open>The collaborators of \<open>injectRun\<close>; \<open>Inl\<close> is a rejection or a throw, with its message.\<close>

record world =
  getToken :: "jsstring + jsstring"
  getRepository :: "jsstring + jsstring"
  pullSecrets :: "jsstring \<Rightarrow> jsstring \<Rightarrow> jsstring \<Rightarrow> jsstring + jsstring"
  parseEnvContent :: "jsstring \<Rightarrow> secretMap"
  processEnv :: "jsstring \<rightharpoonup> jsstring"
  spawn :: "jsstring \<Rightarrow> jsstring list \<Rightarrow> (jsstring \<rightharpoonup> jsstring) \<Rightarrow> int \<Rightarrow> childProcess"

text \<open>The calls made to the collaborators, in order.\<close>

datatype effect =
    GetToken
  | GetRepository
  | PullSecrets jsstring jsstring jsstring
  | Spawn jsstring "jsstring list" int

datatype error =
    Propagated jsstring
  | FailedToExecute jsstring
  | CommandTimedOut int

record capture =
  stdoutText :: jsstring
  stderrText :: jsstring
  stdoutBytes :: nat
  stderrBytes :: nat

fun onData :: "capture \<Rightarrow> stream \<times> buffer \<Rightarrow> capture" where
  "onData c (Stdout, d) =
     (if int (stdoutBytes c) < MAX_OUTPUT_BYTES
      then c\<lparr>stdoutText := stdoutText c @ buffer_toString d,
             stdoutBytes := stdoutBytes c + buffer_length d\<rparr>
      else c)"
| "onData c (Stderr, d) =
     (if int (stderrBytes c) < MAX_OUTPUT_BYTES
      then c\<lparr>stderrText := stderrText c @ buffer_toString d,
             stderrBytes := stderrBytes c + buffer_length d\<rparr>
      else c)"

record response =
  exitCode :: int
  stdout :: jsstring
  stderr :: jsstring
  secretsInjected :: nat
  warnings :: "jsstring list option"

datatype content = Text jsstring | Json response

record callToolResult =
  content :: content
  isError :: bool

text \<open>
  The \<open>close\<close> handler followed by the assembly of the response;
  \<open>JSON.stringify(response, null, 2)\<close> is kept as the response itself.
\<close>

definition onClose :: "secretMap \<Rightarrow> capture \<Rightarrow> int option \<Rightarrow> callToolResult option" where
  "onClose secrets c code =
     (case truncateOutput (stdoutText c) MAX_OUTPUT_BYTES of
        None \<Rightarrow> None
      | Some (stdoutResult, stdoutCut) \<Rightarrow>
         (case truncateOutput (stderrText c) MAX_OUTPUT_BYTES of
            None \<Rightarrow> None
          | Some (stderrResult, stderrCut) \<Rightarrow>
              let code1 = (case code of None \<Rightarrow> 1 | Some n \<Rightarrow> n);
                  stdoutTruncated = (stdoutCut \<or> MAX_OUTPUT_BYTES \<le> int (stdoutBytes c));
                  stderrTruncated = (stderrCut \<or> MAX_OUTPUT_BYTES \<le> int (stderrBytes c))
              in Some \<lparr>content = Json
                         \<lparr>exitCode = code1,
                          stdout = maskSecrets stdoutResult secrets,
                          stderr = maskSecrets stderrResult secrets,
                          secretsInjected = length (map fst secrets),
                          warnings =
                            (if stdoutTruncated \<or> stderrTruncated then
                               Some ((if stdoutTruncated
                                      then [js ''stdout was truncated (exceeded 1MB)'']
                                      else []) @
                                     (if stderrTruncated
                                      then [js ''stderr was truncated (exceeded 1MB)'']
                                      else []))
                             else None)\<rparr>,
                       isError = (code1 \<noteq> 0)\<rparr>))"

text \<open>
  \<open>injectRun\<close> gives the calls it made and how the promise settles: rejected (\<open>Inl\<close>) or
  resolved with a result (\<open>Inr\<close>); \<open>None\<close> when it never settles.
\<close>

definition injectRun ::
  "world \<Rightarrow> injectArgs \<Rightarrow> (effect list \<times> (error + callToolResult)) option" where
  "injectRun w a =
     (if command a = [] \<or> trim (command a) = [] then
        Some ([], Inr \<lparr>content = Text (js ''Error: command is required''), isError = True\<rparr>)
      else
        case getToken w of
          Inl e \<Rightarrow> Some ([GetToken], Inl (Propagated e))
        | Inr token \<Rightarrow>
           (case getRepository w of
              Inl e \<Rightarrow> Some ([GetToken, GetRepository], Inl (Propagated e))
            | Inr repository \<Rightarrow>
               let env_name = effectiveEnvironment (environment a);
                   ms = effectiveTimeout (timeout a);
                   fetched = [GetToken, GetRepository, PullSecrets repository env_name token]
               in
               (case pullSecrets w repository env_name token of
                  Inl e \<Rightarrow> Some (fetched, Inl (Propagated e))
                | Inr text \<Rightarrow>
                   let secrets = parseEnvContent w text;
                       env = processEnv w ++ map_of secrets;
                       argv = (case args a of None \<Rightarrow> [] | Some l \<Rightarrow> l);
                       trace = fetched @ [Spawn (command a) argv ms]
                   in
                   (case spawn w (command a) argv env ms of
                      SpawnThrows e \<Rightarrow> Some (trace, Inl (Propagated e))
                    | EmitsError msg \<Rightarrow> Some (trace, Inl (FailedToExecute msg))
                    | TimesOut \<Rightarrow> Some (trace, Inl (CommandTimedOut ms))
                    | Closes events code \<Rightarrow>
                        map_option (\<lambda>r. (trace, Inr r))
                          (onClose secrets
                             (foldl onData
                                \<lparr>stdoutText = [], stderrText = [],
                                 stdoutBytes = 0, stderrBytes = 0\<rparr> events)
                             code)))))"

section \<open>Auxiliary notions\<close>

text \<open>One replacement of the loop body, with the text last.\<close>

definition redact :: "jsstring \<Rightarrow> jsstring \<Rightarrow> jsstring" where
  "redact p t = replaceScan p REDACTED t"

text \<open>A candidate prefix fits when the loop of \<open>truncateOutput\<close> stops at it.\<close>

definition fits :: "int \<Rightarrow> jsstring \<Rightarrow> bool" where
  "fits maxBytes s \<longleftrightarrow> int (byteLength s) \<le> maxBytes - int (byteLength TRUNCATION_MESSAGE)"

text \<open>
  The secrets of a map do not interfere when each pattern cannot overlap the marker and
  patterns of different values are equal or cannot overlap each other.
\<close>

definition nonOverlapping :: "secretMap \<Rightarrow> bool" where
  "nonOverlapping secrets \<longleftrightarrow>
     (\<forall>v\<in>set (map snd secrets). \<forall>p\<in>set (patterns v). cannotOverlap p REDACTED) \<and>
     (\<forall>v\<in>set (map snd secrets). \<forall>w\<in>set (map snd secrets). v \<noteq> w \<longrightarrow>
        (\<forall>p\<in>set (patterns v). \<forall>q\<in>set (patterns w). p = q \<or> cannotOverlap p q))"

text \<open>
  The secrets of the repository's test suite, and a map with a value that
  \<open>encodeURIComponent\<close> rejects (it starts with an unpaired surrogate).
\<close>

definition test_secrets :: secretMap where
  "test_secrets =
     [(js ''SECRET_KEY'', js ''mysecretvalue123''), (js ''API_TOKEN'', js ''sk-abc123xyz'')]"

definition broken_secrets :: secretMap where
  "broken_secrets =
     [(js ''BROKEN'', [0xD800, 0x61, 0x62, 0x63]), (js ''PASSWORD'', js ''p@ss w0rd'')]"

text \<open>
  A world like the mocks of the test suite: the token and the repository are fixed, the
  fetch returns two secrets, \<open>echo\<close> prints its arguments, \<open>false\<close> exits with 1 and any
  other command fails to start. Two variants: a fetch with no secrets, and a parser that
  yields one secret with an empty value.
\<close>

definition mock_content :: jsstring where
  "mock_content = js ''SECRET_KEY=mysecretvalue123'' @ [0x0A] @ js ''API_TOKEN=sk-abc123xyz''"

definition test_spawn ::
  "jsstring \<Rightarrow> jsstring list \<Rightarrow> (jsstring \<rightharpoonup> jsstring) \<Rightarrow> int \<Rightarrow> childProcess" where
  "test_spawn cmd argv env ms =
     (if cmd = js ''echo'' then
        Closes [(Stdout, \<lparr>buffer_toString = concat argv @ [0x0A],
                          buffer_length = byteLength (concat argv) + 1\<rparr>)] (Some 0)
      else if cmd = js ''false'' then Closes [] (Some 1)
      else EmitsError (js ''spawn ENOENT''))"

definition test_world :: world where
  "test_world =
     \<lparr>getToken = Inr (js ''mock-token''),
      getRepository = Inr (js ''owner/repo''),
      pullSecrets = (\<lambda>repository env_name token. Inr mock_content),
      parseEnvContent = (\<lambda>text. if text = mock_content then test_secrets else []),
      processEnv = Map.empty,
      spawn = test_spawn\<rparr>"

definition no_secrets_world :: world where
  "no_secrets_world = test_world\<lparr>pullSecrets := (\<lambda>repository env_name token. Inr [])\<rparr>"

definition empty_value_world :: world where
  "empty_value_world = test_world\<lparr>parseEnvContent := (\<lambda>text. [(js ''EMPTY'', [])])\<rparr>"

text \<open>
  Calls: \<open>echo hello\<close> with a ten minute timeout, \<open>false\<close> with an empty environment name,
  and a blank command.
\<close>

definition echo_hello :: injectArgs where
  "echo_hello = \<lparr>command = js ''echo'', args = Some [js ''hello''], environment = None,
                  timeout = Some 600000\<rparr>"

definition run_false :: injectArgs where
  "run_false = \<lparr>command = js ''false'', args = None, environment = Some [], timeout = None\<rparr>"

definition blank_command :: injectArgs where
  "blank_command = \<lparr>command = js ''   '', args = None, environment = None, timeout = None\<rparr>"

text \<open>
  The capture at \<open>close\<close>, and what the child wrote to a stream: the decoded chunks in order,
  and their byte count.
\<close>

definition captured :: "(stream \<times> buffer) list \<Rightarrow> capture" where
  "captured events =
     foldl onData \<lparr>stdoutText = [], stderrText = [], stdoutBytes = 0, stderrBytes = 0\<rparr> events"



text \<open>
  Worlds whose process writes one chunk to each stream and closes with a given exit code:
  one that prints both test secrets and exits with 3, one with the secret \<open>RED\<close> that prints
  \<open>RED alert\<close>, and one that floods both streams beyond the limit.
\<close>

definition printed :: "jsstring \<Rightarrow> jsstring \<Rightarrow> (stream \<times> buffer) list" where
  "printed out err =
     [(Stdout, \<lparr>buffer_toString = out, buffer_length = byteLength out\<rparr>),
      (Stderr, \<lparr>buffer_toString = err, buffer_length = byteLength err\<rparr>)]"






section \<open>Replacement by scanning\<close>

lemma prefix_append_cases: "prefix p (a @ ys) \<Longrightarrow> prefix p a \<or> prefix a p"
  by (auto simp: prefix_append)

lemma prefix_replaceScan:
  "noStart m q \<Longrightarrow> prefix q (replaceScan p m ys) \<Longrightarrow> prefix q ys"
proof (induction p m ys arbitrary: q rule: replaceScan.induct)
  case (1 p m)
  then show ?case by simp
next
  case (2 p m x xs)
  show ?case
  proof (cases q)
    case Nil
    then show ?thesis by simp
  next
    case (Cons y q')
    with "2.prems"(1) have ns: "\<not> prefix m q" "\<not> prefix q m" "noStart m q'"
      by simp_all
    show ?thesis
    proof (cases "prefix p (x # xs)")
      case True
      with "2.prems"(2) have "prefix q (m @ replaceScan p m (drop (length p - 1) xs))"
        by simp
      with ns show ?thesis
        using prefix_append_cases [of q m] by blast
    next
      case False
      with "2.prems"(2) Cons have "y = x" "prefix q' (replaceScan p m xs)"
        by simp_all
      with "2.IH"(2) [OF False ns(3)] Cons show ?thesis by simp
    qed
  qed
qed

lemma replaceScan_append:
  "noStart p a \<Longrightarrow> replaceScan p m (a @ ys) = a @ replaceScan p m ys"
proof (induction a)
  case Nil
  then show ?case by simp
next
  case (Cons x a)
  then have "\<not> prefix p (x # a @ ys)"
    using prefix_append_cases [of p "x # a" ys] by auto
  with Cons show ?case by simp
qed

lemma replaceScan_match:
  "p \<noteq> [] \<Longrightarrow> replaceScan p m (p @ ys) = m @ replaceScan p m ys"
  by (cases p) simp_all

lemma sublist_skip:
  "noStart q a \<Longrightarrow> sublist q (a @ r) \<Longrightarrow> sublist q r"
proof (induction a)
  case Nil
  then show ?case by simp
next
  case (Cons x a)
  then have "\<not> prefix q (x # a @ r)"
    using prefix_append_cases [of q "x # a" r] by auto
  with Cons show ?case by (simp add: sublist_Cons_right)
qed

lemma sublist_replaceScan:
  "noStart m q \<Longrightarrow> noStart q m \<Longrightarrow> sublist q (replaceScan p m t) \<Longrightarrow> sublist q t"
proof (induction p m t rule: replaceScan.induct)
  case (1 p m)
  then show ?case by simp
next
  case (2 p m x xs)
  show ?case
  proof (cases "prefix p (x # xs)")
    case True
    with "2.prems" have "sublist q (replaceScan p m (drop (length p - 1) xs))"
      by (auto dest: sublist_skip)
    with "2.IH"(1) [OF True] "2.prems" have "sublist q (drop (length p - 1) xs)"
      by simp
    then have "sublist q xs"
      using sublist_drop sublist_order.order_trans by blast
    then show ?thesis by (simp add: sublist_Cons_right)
  next
    case False
    with "2.prems" have "prefix q (x # replaceScan p m xs) \<or> sublist q (replaceScan p m xs)"
      by (simp add: sublist_Cons_right)
    then show ?thesis
    proof
      assume pre: "prefix q (x # replaceScan p m xs)"
      have "prefix q (replaceScan p m (x # xs))" using pre False by simp
      with "2.prems"(1) have "prefix q (x # xs)" by (rule prefix_replaceScan)
      then show ?thesis by auto
    next
      assume "sublist q (replaceScan p m xs)"
      with "2.IH"(2) [OF False] "2.prems" have "sublist q xs" by simp
      then show ?thesis by (simp add: sublist_Cons_right)
    qed
  qed
qed

lemma replaceScan_removes:
  "q \<noteq> [] \<Longrightarrow> noStart m q \<Longrightarrow> noStart q m \<Longrightarrow> \<not> sublist q (replaceScan q m t)"
proof (induction q m t rule: replaceScan.induct)
  case (1 p m)
  then show ?case by simp
next
  case (2 p m x xs)
  show ?case
  proof (cases "prefix p (x # xs)")
    case True
    with "2.IH"(1) [OF True] "2.prems" show ?thesis
      by (auto dest: sublist_skip)
  next
    case False
    have "\<not> prefix p (replaceScan p m (x # xs))"
      using prefix_replaceScan [OF "2.prems"(2)] False by blast
    with "2.IH"(2) [OF False] "2.prems" False show ?thesis
      by (simp add: sublist_Cons_right)
  qed
qed

lemma replaceScan_commute:
  assumes "p1 \<noteq> []" "p2 \<noteq> []" "cannotOverlap p1 p2" "cannotOverlap p1 m" "cannotOverlap p2 m"
  shows "replaceScan p1 m (replaceScan p2 m t) = replaceScan p2 m (replaceScan p1 m t)"
proof (induction t rule: length_induct)
  case (1 t)
  show ?case
  proof (cases t)
    case Nil
    then show ?thesis by simp
  next
    case (Cons x xs)
    consider (a) "prefix p1 t" | (b) "prefix p2 t" | (c) "\<not> prefix p1 t" "\<not> prefix p2 t"
      by blast
    then show ?thesis
    proof cases
      case a
      then obtain r where t: "t = p1 @ r" by (auto simp: prefix_def)
      with assms(1) have "length r < length t" by simp
      with 1 have IH: "replaceScan p1 m (replaceScan p2 m r) = replaceScan p2 m (replaceScan p1 m r)"
        by blast
      from assms show ?thesis
        unfolding t by (simp add: replaceScan_match replaceScan_append cannotOverlap_def IH)
    next
      case b
      then obtain r where t: "t = p2 @ r" by (auto simp: prefix_def)
      with assms(2) have "length r < length t" by simp
      with 1 have IH: "replaceScan p1 m (replaceScan p2 m r) = replaceScan p2 m (replaceScan p1 m r)"
        by blast
      from assms show ?thesis
        unfolding t by (simp add: replaceScan_match replaceScan_append cannotOverlap_def IH)
    next
      case c
      have n1: "\<not> prefix p1 (replaceScan p2 m t)"
        using prefix_replaceScan [of m p1 p2 t] assms(4) c(1) by (auto simp: cannotOverlap_def)
      have n2: "\<not> prefix p2 (replaceScan p1 m t)"
        using prefix_replaceScan [of m p2 p1 t] assms(5) c(2) by (auto simp: cannotOverlap_def)
      have IH: "replaceScan p1 m (replaceScan p2 m xs) = replaceScan p2 m (replaceScan p1 m xs)"
        using 1 Cons by simp
      from c n1 n2 show ?thesis unfolding Cons by (simp add: IH)
    qed
  qed
qed

lemma replaceScan_id: "\<not> sublist p t \<Longrightarrow> replaceScan p m t = t"
proof (induction t)
  case Nil
  then show ?case by simp
next
  case (Cons x xs)
  then have "\<not> prefix p (x # xs)" "\<not> sublist p xs"
    by (auto simp: sublist_Cons_right)
  with Cons show ?case by simp
qed

lemma replaceScan_inserts:
  "sublist p t \<Longrightarrow> p \<noteq> [] \<Longrightarrow> sublist m (replaceScan p m t)"
proof (induction t)
  case Nil
  then show ?case by simp
next
  case (Cons x xs)
  show ?case
  proof (cases "prefix p (x # xs)")
    case True
    then show ?thesis by simp
  next
    case False
    with Cons.prems have "sublist p xs" by (simp add: sublist_Cons_right)
    with Cons.IH Cons.prems(2) have "sublist m (replaceScan p m xs)" by simp
    with False show ?thesis by (simp add: sublist_Cons_right)
  qed
qed

lemma replaceScan_keeps_marker:
  "sublist m t \<Longrightarrow> p \<noteq> [] \<Longrightarrow> sublist m (replaceScan p m t)"
  by (cases "sublist p t") (simp_all add: replaceScan_inserts replaceScan_id)

lemma cannotOverlap_nonempty: "cannotOverlap q m \<Longrightarrow> m \<noteq> [] \<Longrightarrow> q \<noteq> []"
  by (cases m) (auto simp: cannotOverlap_def)

lemma REDACTED_nonempty: "REDACTED \<noteq> []"
  by (simp add: REDACTED_def js_def)

section \<open>The patterns of a secret\<close>

lemma utf8_nonempty: "utf8 cp \<noteq> []"
  by (simp add: utf8_def)

lemma utf8Bytes_nonempty: "v \<noteq> [] \<Longrightarrow> utf8Bytes v \<noteq> []"
  by (induction v rule: utf8Bytes.induct) (simp_all add: utf8_nonempty)

lemma base64_nonempty: "bs \<noteq> [] \<Longrightarrow> base64 bs \<noteq> []"
  by (induction bs rule: base64.induct) simp_all

lemma toBase64_nonempty: "v \<noteq> [] \<Longrightarrow> toBase64 v \<noteq> []"
  by (simp add: toBase64_def base64_nonempty utf8Bytes_nonempty)

lemma percentEscape_nonempty: "bs \<noteq> [] \<Longrightarrow> percentEscape bs \<noteq> []"
  by (cases bs) (simp_all add: percentEscape_def)

lemma encodeURIComponent_nonempty:
  "encodeURIComponent v = Some u \<Longrightarrow> v \<noteq> [] \<Longrightarrow> u \<noteq> []"
  by (induction v rule: encodeURIComponent.induct)
     (auto simp: percentEscape_nonempty utf8_nonempty split: if_splits)

lemma patterns_nonempty: "p \<in> set (patterns v) \<Longrightarrow> p \<noteq> []"
  using toBase64_nonempty [of v] encodeURIComponent_nonempty [of v "[]"]
  by (auto simp: patterns_def split: if_splits option.splits)

lemma maskValue_patterns: "maskValue t v = fold redact (patterns v) t"
  by (auto simp: maskValue_def patterns_def redact_def replaceAll_def Let_def toBase64_nonempty
           dest: encodeURIComponent_nonempty split: option.splits)

lemma foldl_maskValue: "foldl maskValue t vs = fold redact (concat (map patterns vs)) t"
  by (induction vs arbitrary: t) (simp_all add: maskValue_patterns)

lemma maskSecrets_fold:
  "maskSecrets t secrets = fold redact (concat (map patterns (map snd secrets))) t"
proof (cases "t = []")
  case True
  have "fold redact ps [] = []" for ps
    by (induction ps) (simp_all add: redact_def)
  with True show ?thesis by (simp add: maskSecrets_def)
next
  case False
  then show ?thesis by (simp add: maskSecrets_def foldl_maskValue)
qed

lemma fold_redact_absent:
  "cannotOverlap q REDACTED \<Longrightarrow> \<not> sublist q t \<Longrightarrow> \<not> sublist q (fold redact ps t)"
proof (induction ps arbitrary: t)
  case Nil
  then show ?case by simp
next
  case (Cons p ps)
  from Cons.prems have "\<not> sublist q (redact p t)"
    unfolding redact_def cannotOverlap_def using sublist_replaceScan by blast
  with Cons show ?case by simp
qed

lemma fold_redact_removes:
  assumes "q \<in> set ps" "cannotOverlap q REDACTED"
  shows "\<not> sublist q (fold redact ps t)"
proof -
  from assms(1) obtain as bs where ps: "ps = as @ q # bs"
    by (auto simp: in_set_conv_decomp)
  have "q \<noteq> []" using assms(2) REDACTED_nonempty by (rule cannotOverlap_nonempty)
  with assms(2) have "\<not> sublist q (redact q (fold redact as t))"
    unfolding redact_def cannotOverlap_def by (simp add: replaceScan_removes)
  with assms(2) show ?thesis
    unfolding ps by (simp add: fold_redact_absent)
qed

lemma fold_redact_keeps_marker:
  "\<forall>p\<in>set ps. p \<noteq> [] \<Longrightarrow> sublist REDACTED t \<Longrightarrow> sublist REDACTED (fold redact ps t)"
  by (induction ps arbitrary: t) (simp_all add: redact_def replaceScan_keeps_marker)

lemma fold_redact_marks:
  assumes "q \<in> set ps" "\<forall>p\<in>set ps. p \<noteq> []" "sublist q t \<or> sublist REDACTED t"
  shows "sublist REDACTED (fold redact ps t)"
  using assms
proof (induction ps arbitrary: t)
  case Nil
  then show ?case by simp
next
  case (Cons p ps)
  from Cons.prems(2) have ne: "p \<noteq> []" by simp
  show ?case
  proof (cases "sublist p t")
    case True
    with ne have "sublist REDACTED (redact p t)"
      by (simp add: redact_def replaceScan_inserts)
    with Cons.prems(2) show ?thesis by (simp add: fold_redact_keeps_marker)
  next
    case False
    then have same: "redact p t = t" by (simp add: redact_def replaceScan_id)
    from False Cons.prems(1,3) have "q \<in> set ps \<or> sublist REDACTED t" by auto
    then show ?thesis
    proof
      assume "q \<in> set ps"
      with Cons.IH Cons.prems(2,3) same show ?thesis by simp
    next
      assume "sublist REDACTED t"
      with Cons.prems(2) same show ?thesis by (simp add: fold_redact_keeps_marker)
    qed
  qed
qed

lemma value_in_patterns: "v \<noteq> [] \<Longrightarrow> v \<in> set (patterns v)"
  by (simp add: patterns_def)

lemma base64_in_patterns: "4 \<le> length v \<Longrightarrow> toBase64 v \<in> set (patterns v)"
  by (auto simp: patterns_def)

lemma url_in_patterns:
  "4 \<le> length v \<Longrightarrow> encodeURIComponent v = Some u \<Longrightarrow> u \<in> set (patterns v)"
  by (auto simp: patterns_def)

lemma in_all_patterns:
  "(k, v) \<in> set secrets \<Longrightarrow> p \<in> set (patterns v)
   \<Longrightarrow> p \<in> set (concat (map patterns (map snd secrets)))"
  by force

lemma all_patterns_nonempty:
  "\<forall>p\<in>set (concat (map patterns (map snd secrets))). p \<noteq> []"
  by (auto simp: patterns_nonempty)

lemma redact_commute:
  assumes "p \<noteq> []" "q \<noteq> []" "p = q \<or> cannotOverlap p q"
    and "cannotOverlap p REDACTED" "cannotOverlap q REDACTED"
  shows "redact p \<circ> redact q = redact q \<circ> redact p"
proof (cases "p = q")
  case True
  then show ?thesis by simp
next
  case False
  with assms(3) have "cannotOverlap p q" by simp
  with assms show ?thesis
    by (auto simp: redact_def fun_eq_iff intro: replaceScan_commute)
qed

lemma fold_commute_pairwise:
  assumes "\<And>p q. p \<in> set ps \<Longrightarrow> q \<in> set qs \<Longrightarrow> g p \<circ> g q = g q \<circ> g p"
  shows "fold g ps \<circ> fold g qs = fold g qs \<circ> fold g ps"
proof (rule fold_commute)
  fix q assume q: "q \<in> set qs"
  have "g q \<circ> fold g ps = fold g ps \<circ> g q"
  proof (rule fold_commute)
    fix p assume "p \<in> set ps"
    then show "g q \<circ> g p = g p \<circ> g q" using q by (rule assms [symmetric])
  qed
  then show "fold g ps \<circ> g q = g q \<circ> fold g ps" by simp
qed

lemma maskSecrets_fold_values:
  "maskSecrets t secrets = fold (\<lambda>v. fold redact (patterns v)) (map snd secrets) t"
  unfolding maskSecrets_fold by (induction secrets arbitrary: t) simp_all

lemma patterns_SECRET_KEY:
  "patterns (js ''mysecretvalue123'') = [js ''mysecretvalue123'', js ''bXlzZWNyZXR2YWx1ZTEyMw=='']"
  by code_simp

lemma patterns_API_TOKEN:
  "patterns (js ''sk-abc123xyz'') = [js ''sk-abc123xyz'', js ''c2stYWJjMTIzeHl6'']"
  by code_simp

section \<open>The base64 form and the marker\<close>

lemma base64Alphabet_length: "length base64Alphabet = 64"
  by (simp add: base64Alphabet_def js_def)

lemma base64Alphabet_distinct: "distinct base64Alphabet"
  by (simp add: base64Alphabet_def js_def)

lemma base64Char_index:
  "k < 64 \<Longrightarrow> base64Char n = base64Alphabet ! k \<Longrightarrow> n mod 64 = k"
  unfolding base64Char_def
  using nth_eq_iff_index_eq [OF base64Alphabet_distinct, of "n mod 64" k]
  by (simp add: base64Alphabet_length)

lemma base64Char_A: "base64Char n = 0x41 \<Longrightarrow> n mod 64 = 0"
  using base64Char_index [of 0 n] by (simp add: base64Alphabet_def js_def)

lemma base64Char_D: "base64Char n = 0x44 \<Longrightarrow> n mod 64 = 3"
  using base64Char_index [of 3 n] by (simp add: base64Alphabet_def js_def)

lemma base64Char_no_star: "base64Char n \<noteq> 0x2A"
proof -
  have "base64Char n \<in> set base64Alphabet"
    unfolding base64Char_def by (rule nth_mem) (simp add: base64Alphabet_length)
  moreover have "0x2A \<notin> set base64Alphabet"
    by (simp add: base64Alphabet_def js_def)
  ultimately show ?thesis by metis
qed

lemma base64_no_star: "0x2A \<notin> set (base64 bs)"
  by (induction bs rule: base64.induct) (simp_all add: base64Char_no_star)

lemma base64_length_nonempty: "bs \<noteq> [] \<Longrightarrow> 4 \<le> length (base64 bs)"
  by (cases bs rule: base64.cases) simp_all

lemma base64_length_four: "4 \<le> length bs \<Longrightarrow> 8 \<le> length (base64 bs)"
proof -
  assume len: "4 \<le> length bs"
  then obtain a r1 where 1: "bs = a # r1" by (cases bs) auto
  with len obtain b r2 where 2: "r1 = b # r2" by (cases r1) auto
  with len 1 obtain c r3 where 3: "r2 = c # r3" by (cases r2) auto
  with len 1 2 obtain d r4 where 4: "r3 = d # r4" by (cases r3) auto
  show ?thesis
    unfolding 1 2 3 4 using base64_length_nonempty [of "d # r4"] by simp
qed

lemma utf8_length:
  "length (utf8 cp) =
     (if cp < 0x80 then 1 else if cp < 0x800 then 2 else if cp < 0x10000 then 3 else 4)"
  by (simp add: utf8_def)

lemma utf8Bytes_length: "length v \<le> length (utf8Bytes v)"
  by (induction v rule: utf8Bytes.induct) (auto simp: utf8_length codePoint_def)

lemma byte_not_C0: "n < 256 \<Longrightarrow> n \<noteq> 192 \<Longrightarrow> unat (of_nat n :: 8 word) \<noteq> 192"
  by (simp add: unat_of_nat)

lemma utf8_no_C0:
  assumes "cp < 0x110000" and "x \<in> set (utf8 cp)"
  shows "unat x \<noteq> 192"
proof -
  have cont: "0x80 + n mod 64 < 256" "0x80 + n mod 64 \<noteq> 192" for n :: nat
    by simp_all
  consider (a) "cp < 0x80" | (b) "0x80 \<le> cp" "cp < 0x800" | (c) "0x800 \<le> cp" "cp < 0x10000"
    | (d) "0x10000 \<le> cp"
    by linarith
  then show ?thesis
  proof cases
    case a
    with assms(2) have "x = of_nat cp" by (simp add: utf8_def)
    moreover from a have "cp < 256" "cp \<noteq> 192" by simp_all
    ultimately show ?thesis using byte_not_C0 by blast
  next
    case b
    with assms(2) have "x = of_nat (0xC0 + cp div 64) \<or> x = of_nat (0x80 + cp mod 64)"
      by (auto simp: utf8_def)
    moreover from b have "0xC0 + cp div 64 < 256" "0xC0 + cp div 64 \<noteq> 192" by simp_all
    ultimately show ?thesis using byte_not_C0 cont by blast
  next
    case c
    with assms(2) have "x = of_nat (0xE0 + cp div 4096) \<or>
        x = of_nat (0x80 + (cp div 64) mod 64) \<or> x = of_nat (0x80 + cp mod 64)"
      by (auto simp: utf8_def)
    moreover from c have "0xE0 + cp div 4096 < 256" "0xE0 + cp div 4096 \<noteq> 192" by simp_all
    ultimately show ?thesis using byte_not_C0 cont by blast
  next
    case d
    with assms(2) have "x = of_nat (0xF0 + cp div 262144) \<or>
        x = of_nat (0x80 + (cp div 4096) mod 64) \<or>
        x = of_nat (0x80 + (cp div 64) mod 64) \<or> x = of_nat (0x80 + cp mod 64)"
      by (auto simp: utf8_def)
    moreover from assms(1) have "0xF0 + cp div 262144 < 256" "0xF0 + cp div 262144 \<noteq> 192"
      by simp_all
    ultimately show ?thesis using byte_not_C0 cont by blast
  qed
qed

lemma codePoint_bound:
  "isHighSurrogate c \<Longrightarrow> isLowSurrogate d \<Longrightarrow> codePoint c d < 0x110000"
  by (simp add: isHighSurrogate_def isLowSurrogate_def codePoint_def word_le_nat_alt) arith

lemma unit_bound: "unat (c :: 16 word) < 0x110000"
  using unsigned_less [of c, where 'a = nat] by simp

lemma utf8Bytes_no_C0: "x \<in> set (utf8Bytes v) \<Longrightarrow> unat x \<noteq> 192"
proof (induction v rule: utf8Bytes.induct)
  case 1
  then show ?case by simp
next
  case (2 c)
  then show ?case
    using utf8_no_C0 [of "unat c" x] utf8_no_C0 [of "0xFFFD" x] unit_bound [of c]
    by (simp split: if_splits)
next
  case (3 c d cs)
  then show ?case
    using utf8_no_C0 [of "unat c" x] utf8_no_C0 [of "0xFFFD" x] unit_bound [of c]
      utf8_no_C0 [of "codePoint c d" x] codePoint_bound [of c d]
    by (auto split: if_splits)
qed

lemma prefix_without:
  assumes "prefix b (xs @ y # ys)" and "y \<notin> set b"
  shows "prefix b xs"
proof -
  from assms(1) consider "prefix b xs" | us where "b = xs @ us" "prefix us (y # ys)"
    by (auto simp: prefix_append)
  then show ?thesis
  proof cases
    case 1
    then show ?thesis .
  next
    case 2
    with assms(2) have "us = []" by (cases us) auto
    with 2 show ?thesis by simp
  qed
qed

lemma noStart_Cons_absent:
  assumes "y \<notin> set b" and "b \<noteq> []" and "noStart b rest"
  shows "noStart b (y # rest)"
proof -
  from assms(1,2) have "\<not> prefix b (y # rest)" by (cases b) auto
  moreover from assms(1) have "\<not> prefix (y # rest) b" by (auto dest: set_mono_prefix)
  ultimately show ?thesis using assms(3) by simp
qed

lemma noStart_through:
  assumes "y \<notin> set b" and "noStart b (y # ys)"
    and "\<And>s. suffix s xs \<Longrightarrow> s \<noteq> [] \<Longrightarrow> \<not> prefix b s"
  shows "noStart b (xs @ y # ys)"
  using assms(3)
proof (induction xs)
  case Nil
  from assms(2) show ?case by simp
next
  case (Cons x xs)
  have "\<not> prefix b (x # xs)" by (rule Cons.prems) simp_all
  then have "\<not> prefix b ((x # xs) @ y # ys)"
    using prefix_without [OF _ assms(1)] by blast
  moreover have "\<not> prefix ((x # xs) @ y # ys) b"
    using assms(1) by (auto dest: set_mono_prefix)
  moreover have "noStart b (xs @ y # ys)"
  proof (rule Cons.IH)
    fix s assume "suffix s xs" "s \<noteq> []"
    then show "\<not> prefix b s" using Cons.prems [of s] by (simp add: suffix_ConsI)
  qed
  ultimately show ?case by simp
qed

lemma noStart_absent_head: "y \<notin> set b \<Longrightarrow> noStart (y # m) b"
proof (induction b)
  case Nil
  then show ?case by simp
next
  case (Cons x b)
  then show ?case by auto
qed

lemma base64_not_REDACTED: "base64 (utf8Bytes v) \<noteq> js ''REDACTED''"
proof
  assume eq: "base64 (utf8Bytes v) = js ''REDACTED''"
  show False
  proof (cases "utf8Bytes v" rule: base64.cases)
    case 1
    with eq show False by (simp add: js_def)
  next
    case (2 a)
    with eq show False by (simp add: js_def)
  next
    case (3 a b)
    with eq show False by (simp add: js_def)
  next
    case (4 a b c bs)
    with eq have d: "base64Char (unat b mod 16 * 4 + unat c div 64) = 0x44"
      and a: "base64Char (unat c mod 64) = 0x41"
      by (simp_all add: js_def)
    define m where "m = unat b mod 16"
    define q where "q = unat c div 64"
    have "unat c < 256" using unsigned_less [of c, where 'a = nat] by simp
    then have q: "q < 4" unfolding q_def by simp
    have m: "m < 16" unfolding m_def by simp
    from d have "(m * 4 + q) mod 64 = 3" unfolding m_def q_def by (rule base64Char_D)
    moreover from m q have "m * 4 + q < 64" by simp
    ultimately have "m * 4 + q = 3" by simp
    then have "q = 3" by arith
    moreover from a have "unat c mod 64 mod 64 = 0" by (rule base64Char_A)
    then have "unat c mod 64 = 0" by simp
    moreover have "unat c = q * 64 + unat c mod 64" unfolding q_def by simp
    ultimately have "unat c = 192" by simp
    moreover from 4 have "c \<in> set (utf8Bytes v)" by simp
    ultimately show False using utf8Bytes_no_C0 by blast
  qed
qed

lemma toBase64_cannotOverlap:
  assumes "4 \<le> length v"
  shows "cannotOverlap (toBase64 v) REDACTED"
proof -
  let ?b = "toBase64 v"
  have star: "0x2A \<notin> set ?b" by (simp add: toBase64_def base64_no_star)
  from assms have "4 \<le> length (utf8Bytes v)"
    using utf8Bytes_length [of v] by simp
  then have len: "8 \<le> length ?b" unfolding toBase64_def by (rule base64_length_four)
  then have ne: "?b \<noteq> []" by auto
  have letters: "\<not> prefix ?b s" if "suffix s (js ''REDACTED'')" "s \<noteq> []" for s
  proof
    assume p: "prefix ?b s"
    then have "length ?b \<le> length s" by (rule prefix_length_le)
    moreover from that(1) have "length s \<le> length (js ''REDACTED'')" by (rule suffix_length_le)
    moreover have l8: "length (js ''REDACTED'') = 8" by (simp add: js_def)
    ultimately have "length s = length (js ''REDACTED'')" "length ?b = length s"
      using len by simp_all
    then have eqs: "length s = length (js ''REDACTED'')" "length ?b = length s" .
    from that(1) obtain zs where zs: "js ''REDACTED'' = zs @ s" by (auto simp: suffix_def)
    from arg_cong [OF zs, of length] eqs(1) have "zs = []" by simp
    with zs have s: "s = js ''REDACTED''" by simp
    from p obtain ys where ys: "s = ?b @ ys" by (auto simp: prefix_def)
    from arg_cong [OF ys, of length] eqs(2) have "ys = []" by simp
    with ys s have "?b = js ''REDACTED''" by simp
    then show False using base64_not_REDACTED [of v] by (simp add: toBase64_def)
  qed
  have stars: "noStart ?b (0x2A # rest)" if "noStart ?b rest" for rest
    using star ne that by (rule noStart_Cons_absent)
  have "noStart ?b [0x2A, 0x2A, 0x2A]"
    by (intro stars) simp
  with star have "noStart ?b (js ''REDACTED'' @ 0x2A # [0x2A, 0x2A])"
    by (rule noStart_through) (rule letters)
  then have "noStart ?b (0x2A # 0x2A # 0x2A # js ''REDACTED'' @ 0x2A # [0x2A, 0x2A])"
    by (intro stars)
  moreover have "REDACTED = 0x2A # 0x2A # 0x2A # js ''REDACTED'' @ 0x2A # [0x2A, 0x2A]"
    by (simp add: REDACTED_def js_def)
  ultimately have "noStart ?b REDACTED" by simp
  moreover have "noStart REDACTED ?b"
    using star noStart_absent_head [of "0x2A" ?b "tl REDACTED"]
    by (simp add: REDACTED_def js_def)
  ultimately show ?thesis by (simp add: cannotOverlap_def)
qed

section \<open>The truncation loop\<close>

lemma slice_tail: "slice s 0 (- 1000) = take (length s - 1000) s"
proof -
  have "nat (max (max (int (length s) - 1000) 0) 0) = length s - 1000" by simp
  then show ?thesis by (simp add: slice_def Let_def)
qed

lemma byteLength_Nil: "byteLength [] = 0"
  by (simp add: byteLength_def)

lemma byteLength_TRUNCATION_MESSAGE: "byteLength TRUNCATION_MESSAGE = 41"
  by code_simp

lemma truncateWhile_steps:
  assumes "int (byteLength TRUNCATION_MESSAGE) \<le> maxBytes"
  shows "\<exists>k. truncateWhile maxBytes t = Some (take (length t - 1000 * k) t) \<and>
             fits maxBytes (take (length t - 1000 * k) t) \<and>
             (\<forall>j<k. \<not> fits maxBytes (take (length t - 1000 * j) t))"
proof (induction t rule: length_induct)
  case (1 t)
  show ?case
  proof (cases "fits maxBytes t")
    case True
    then have "truncateWhile maxBytes t = Some t"
      by (subst truncateWhile.simps) (simp add: fits_def)
    with True show ?thesis by (intro exI [of _ 0]) simp
  next
    case False
    let ?t' = "take (length t - 1000) t"
    from False assms have "t \<noteq> []" by (auto simp: fits_def byteLength_Nil)
    then have "length ?t' < length t" by (cases t) auto
    with 1 obtain k where k:
      "truncateWhile maxBytes ?t' = Some (take (length ?t' - 1000 * k) ?t')"
      "fits maxBytes (take (length ?t' - 1000 * k) ?t')"
      "\<forall>j<k. \<not> fits maxBytes (take (length ?t' - 1000 * j) ?t')"
      by blast
    have tk: "take (length ?t' - 1000 * j) ?t' = take (length t - 1000 * Suc j) t" for j
      by (simp add: min_def)
    from False have "truncateWhile maxBytes t = truncateWhile maxBytes ?t'"
      by (subst truncateWhile.simps) (simp add: fits_def slice_tail)
    with k(1) have a: "truncateWhile maxBytes t = Some (take (length t - 1000 * Suc k) t)"
      by (simp only: tk)
    from k(2) have b: "fits maxBytes (take (length t - 1000 * Suc k) t)"
      by (simp only: tk)
    have c: "\<not> fits maxBytes (take (length t - 1000 * j) t)" if "j < Suc k" for j
    proof (cases j)
      case 0
      with False show ?thesis by simp
    next
      case (Suc i)
      with that k(3) have "\<not> fits maxBytes (take (length ?t' - 1000 * i) ?t')" by simp
      then have "\<not> fits maxBytes (take (length t - 1000 * Suc i) t)" unfolding tk .
      with Suc show ?thesis by simp
    qed
    from a b c show ?thesis by blast
  qed
qed

lemma truncateOutput_small:
  "int (byteLength t) \<le> maxBytes \<Longrightarrow> truncateOutput t maxBytes = Some (t, False)"
  by (simp add: truncateOutput_def)

lemma truncateOutput_total:
  "int (byteLength TRUNCATION_MESSAGE) \<le> maxBytes \<Longrightarrow> \<exists>r. truncateOutput t maxBytes = Some r"
  using truncateWhile_steps [of maxBytes t] by (auto simp: truncateOutput_def Let_def)

lemma utf8Bytes_plain:
  "\<not> isHighSurrogate c \<Longrightarrow> \<not> isLowSurrogate c \<Longrightarrow> utf8Bytes (c # cs) = utf8 (unat c) @ utf8Bytes cs"
  by (cases cs) simp_all

lemma byteLength_letters: "byteLength (replicate n 0x61) = n"
  by (induction n) (simp_all add: byteLength_def utf8Bytes_plain isHighSurrogate_def isLowSurrogate_def utf8_def)

lemma byteLength_pairs:
  "byteLength (concat (replicate n [0xD83D, 0xDE00]) @ cs) = 4 * n + byteLength cs"
  by (induction n) (simp_all add: byteLength_def isHighSurrogate_def isLowSurrogate_def utf8_def codePoint_def)

lemma isWellFormed_pairs:
  "isWellFormed (concat (replicate n [0xD83D, 0xDE00]) @ cs) = isWellFormed cs"
  by (induction n) (simp_all add: isHighSurrogate_def isLowSurrogate_def)

lemma take_pairs:
  "m < n \<Longrightarrow> take (2 * m + 1) (concat (replicate n [x, y]) @ cs) = concat (replicate m [x, y]) @ [x]"
proof (induction n arbitrary: m)
  case 0
  then show ?case by simp
next
  case (Suc n)
  show ?case
  proof (cases m)
    case 0
    then show ?thesis by simp
  next
    case (Suc m')
    with Suc.prems Suc.IH [of m'] show ?thesis by simp
  qed
qed

lemma truncateWhile_letters:
  assumes "MAX_OUTPUT_BYTES - 41 < int n" and "int (n - 1000) \<le> MAX_OUTPUT_BYTES - 41"
  shows "truncateWhile MAX_OUTPUT_BYTES (replicate n 0x61) = Some (replicate (n - 1000) 0x61)"
proof -
  from assms(1) have "truncateWhile MAX_OUTPUT_BYTES (replicate n 0x61) =
      truncateWhile MAX_OUTPUT_BYTES (replicate (n - 1000) 0x61)"
    by (subst truncateWhile.simps)
       (simp add: byteLength_letters byteLength_TRUNCATION_MESSAGE slice_tail min_def)
  also from assms(2) have "\<dots> = Some (replicate (n - 1000) 0x61)"
    by (subst truncateWhile.simps)
       (simp add: byteLength_letters byteLength_TRUNCATION_MESSAGE)
  finally show ?thesis .
qed

lemma prefix_replicate: "a \<le> b \<Longrightarrow> prefix (replicate a x) (replicate b x)"
proof -
  assume "a \<le> b"
  then have "replicate b x = replicate a x @ replicate (b - a) x"
    by (simp add: replicate_add [symmetric])
  then show ?thesis by (simp add: prefix_def)
qed

lemma truncateWhile_pairs:
  assumes "500 \<le> n" and "MAX_OUTPUT_BYTES - 41 < int (4 * n + 1)"
    and "int (4 * (n - 500) + 3) \<le> MAX_OUTPUT_BYTES - 41"
  shows "truncateWhile MAX_OUTPUT_BYTES (concat (replicate n [0xD83D, 0xDE00]) @ [0x62]) =
         Some (concat (replicate (n - 500) [0xD83D, 0xDE00]) @ [0xD83D])"
proof -
  let ?t = "concat (replicate n [0xD83D, 0xDE00 :: 16 word]) @ [0x62]"
  let ?r = "concat (replicate (n - 500) [0xD83D, 0xDE00 :: 16 word]) @ [0xD83D]"
  have one: "byteLength [0x62] = 1" by code_simp
  have three: "byteLength [0xD83D] = 3"
    by (simp add: byteLength_def isHighSurrogate_def utf8_def)
  have len: "length ?t = 2 * n + 1"
    by (simp add: length_concat sum_list_replicate)
  from assms(1) have l: "length ?t - 1000 = 2 * (n - 500) + 1"
    unfolding len by simp
  from assms(1) have "n - 500 < n" by simp
  then have c: "take (2 * (n - 500) + 1) ?t = ?r" by (rule take_pairs)
  have cut: "take (length ?t - 1000) ?t = ?r"
    unfolding l by (rule c)
  have s1: "slice ?t 0 (- 1000) = ?r"
    by (simp only: slice_tail cut)
  have "byteLength ?t = 4 * n + 1"
    by (simp only: byteLength_pairs one)
  with assms(2) have b1: "int (byteLength ?t) > MAX_OUTPUT_BYTES - int (byteLength TRUNCATION_MESSAGE)"
    by (simp add: byteLength_TRUNCATION_MESSAGE)
  have "byteLength ?r = 4 * (n - 500) + 3"
    by (simp only: byteLength_pairs three)
  with assms(3) have b2: "\<not> int (byteLength ?r) > MAX_OUTPUT_BYTES - int (byteLength TRUNCATION_MESSAGE)"
    by (simp add: byteLength_TRUNCATION_MESSAGE)
  have "truncateWhile MAX_OUTPUT_BYTES ?t = truncateWhile MAX_OUTPUT_BYTES (slice ?t 0 (- 1000))"
    by (subst truncateWhile.simps) (simp only: b1 if_True)
  also have "\<dots> = truncateWhile MAX_OUTPUT_BYTES ?r"
    by (simp only: s1)
  also have "\<dots> = Some ?r"
    by (subst truncateWhile.simps) (simp only: b2 if_False)
  finally show ?thesis .
qed

section \<open>Redaction of the secret values\<close>

text \<open>
  Claim C1, as the code has it. A non-empty secret value \<open>v\<close> of the map that cannot overlap
  the marker \<open>***REDACTED***\<close> (neither string can start inside the other) does not occur in
  the text \<open>maskSecrets\<close> returns, whatever the other secrets are; and when \<open>v\<close> occurs in
  the text handed to \<open>maskSecrets\<close>, which is the capture after truncation, the marker
  occurs in the result.
\<close>

theorem maskSecrets_redacts_value:
  assumes "(k, v) \<in> set secrets" and "v \<noteq> []"
  shows "(cannotOverlap v REDACTED \<longrightarrow> \<not> sublist v (maskSecrets t secrets)) \<and>
         (sublist v t \<longrightarrow> sublist REDACTED (maskSecrets t secrets))"
proof -
  have "v \<in> set (patterns v)" using assms(2) by (rule value_in_patterns)
  with assms(1) have mem: "v \<in> set (concat (map patterns (map snd secrets)))"
    by (rule in_all_patterns)
  have "\<not> sublist v (maskSecrets t secrets)" if "cannotOverlap v REDACTED"
    unfolding maskSecrets_fold using mem that by (rule fold_redact_removes)
  moreover have "sublist REDACTED (maskSecrets t secrets)" if "sublist v t"
    unfolding maskSecrets_fold
  proof (rule fold_redact_marks [OF mem all_patterns_nonempty])
    from that show "sublist v t \<or> sublist REDACTED t" ..
  qed
  ultimately show ?thesis by simp
qed

theorem maskSecrets_redacts_value_witness:
  "(js ''SECRET_KEY'', js ''mysecretvalue123'') \<in> set test_secrets \<and>
   js ''mysecretvalue123'' \<noteq> [] \<and>
   cannotOverlap (js ''mysecretvalue123'') REDACTED \<and>
   sublist (js ''mysecretvalue123'') (js ''The secret is mysecretvalue123'') \<and>
   \<not> sublist (js ''mysecretvalue123'')
       (maskSecrets (js ''The secret is mysecretvalue123'') test_secrets) \<and>
   sublist REDACTED (maskSecrets (js ''The secret is mysecretvalue123'') test_secrets)"
proof -
  have h1: "(js ''SECRET_KEY'', js ''mysecretvalue123'') \<in> set test_secrets" by code_simp
  have h2: "js ''mysecretvalue123'' \<noteq> []" by code_simp
  have h3: "cannotOverlap (js ''mysecretvalue123'') REDACTED" by code_simp
  have h4: "sublist (js ''mysecretvalue123'') (js ''The secret is mysecretvalue123'')" by code_simp
  from maskSecrets_redacts_value [OF h1 h2, of "js ''The secret is mysecretvalue123''"] h1 h2 h3 h4
  show ?thesis by simp
qed

text \<open>
  Claim C1 as stated fails for a value that is part of the marker: with the secret \<open>RED\<close>,
  the output \<open>RED alert\<close> is below the size limit, so it is masked as it is, and the masked
  text \<open>***REDACTED*** alert\<close> contains \<open>RED\<close> again.
\<close>

theorem maskSecrets_leaks_marker_part:
  "truncateOutput (js ''RED alert'') MAX_OUTPUT_BYTES = Some (js ''RED alert'', False) \<and>
   sublist (js ''RED'') (js ''RED alert'') \<and>
   maskSecrets (js ''RED alert'') [(js ''COLOR'', js ''RED'')] = js ''***REDACTED*** alert'' \<and>
   sublist (js ''RED'') (js ''***REDACTED*** alert'')"
proof -
  have "int (byteLength (js ''RED alert'')) \<le> MAX_OUTPUT_BYTES" by code_simp
  then have "truncateOutput (js ''RED alert'') MAX_OUTPUT_BYTES = Some (js ''RED alert'', False)"
    by (rule truncateOutput_small)
  moreover have "sublist (js ''RED'') (js ''RED alert'')" by code_simp
  moreover have "maskSecrets (js ''RED alert'') [(js ''COLOR'', js ''RED'')] = js ''***REDACTED*** alert''"
    by code_simp
  moreover have "sublist (js ''RED'') (js ''***REDACTED*** alert'')" by code_simp
  ultimately show ?thesis by simp
qed

section \<open>Redaction of the encoded forms\<close>

text \<open>
  Claim C2, as the code has it. For a secret value \<open>v\<close> of at least 4 code units: the base64
  form of \<open>v\<close> does not occur in the result of \<open>maskSecrets\<close>, whether or not
  \<open>encodeURIComponent\<close> threw for \<open>v\<close> or for any other secret; when \<open>encodeURIComponent v\<close>
  succeeds with \<open>u\<close> and \<open>u\<close> cannot overlap the marker, \<open>u\<close> does not occur in the result
  either; and when \<open>encodeURIComponent v\<close> throws, the round for \<open>v\<close> still replaces the
  literal value and then the base64 form.
\<close>

theorem maskSecrets_redacts_encodings:
  assumes "(k, v) \<in> set secrets" and "4 \<le> length v"
  shows "(encodeURIComponent v = Some u \<longrightarrow> cannotOverlap u REDACTED \<longrightarrow>
            \<not> sublist u (maskSecrets t secrets)) \<and>
         \<not> sublist (toBase64 v) (maskSecrets t secrets) \<and>
         (encodeURIComponent v = None \<longrightarrow>
            maskValue t v = replaceAll (replaceAll t v REDACTED) (toBase64 v) REDACTED)"
proof -
  have "toBase64 v \<in> set (patterns v)" using assms(2) by (rule base64_in_patterns)
  with assms(1) have b: "toBase64 v \<in> set (concat (map patterns (map snd secrets)))"
    by (rule in_all_patterns)
  have c1: "\<not> sublist u (maskSecrets t secrets)"
    if "encodeURIComponent v = Some u" "cannotOverlap u REDACTED"
  proof -
    have "u \<in> set (patterns v)" using assms(2) that(1) by (rule url_in_patterns)
    with assms(1) have "u \<in> set (concat (map patterns (map snd secrets)))"
      by (rule in_all_patterns)
    then show ?thesis
      unfolding maskSecrets_fold using that(2) by (rule fold_redact_removes)
  qed
  have "cannotOverlap (toBase64 v) REDACTED" using assms(2) by (rule toBase64_cannotOverlap)
  with b have c2: "\<not> sublist (toBase64 v) (maskSecrets t secrets)"
    unfolding maskSecrets_fold by (rule fold_redact_removes)
  have "v \<noteq> []" using assms(2) by auto
  then have c3: "maskValue t v = replaceAll (replaceAll t v REDACTED) (toBase64 v) REDACTED"
    if "encodeURIComponent v = None"
    using assms(2) that by (simp add: maskValue_def)
  from c1 c2 c3 show ?thesis by simp
qed

theorem maskSecrets_redacts_encodings_witness:
  "(js ''PASSWORD'', js ''p@ss w0rd'') \<in> set broken_secrets \<and>
   4 \<le> length (js ''p@ss w0rd'') \<and>
   encodeURIComponent (js ''p@ss w0rd'') = Some (js ''p%40ss%20w0rd'') \<and>
   cannotOverlap (js ''p%40ss%20w0rd'') REDACTED \<and>
   \<not> sublist (js ''p%40ss%20w0rd'') (maskSecrets (js ''login p%40ss%20w0rd'') broken_secrets) \<and>
   \<not> sublist (toBase64 (js ''p@ss w0rd''))
       (maskSecrets (js ''login p%40ss%20w0rd'') broken_secrets) \<and>
   (js ''BROKEN'', [0xD800, 0x61, 0x62, 0x63]) \<in> set broken_secrets \<and>
   4 \<le> length [0xD800, 0x61, 0x62, 0x63 :: 16 word] \<and>
   encodeURIComponent [0xD800, 0x61, 0x62, 0x63] = None \<and>
   \<not> sublist (toBase64 [0xD800, 0x61, 0x62, 0x63])
       (maskSecrets (js ''login p%40ss%20w0rd'') broken_secrets) \<and>
   maskValue (js ''login p%40ss%20w0rd'') [0xD800, 0x61, 0x62, 0x63] =
     replaceAll (replaceAll (js ''login p%40ss%20w0rd'') [0xD800, 0x61, 0x62, 0x63] REDACTED)
       (toBase64 [0xD800, 0x61, 0x62, 0x63]) REDACTED"
proof -
  have h1: "(js ''PASSWORD'', js ''p@ss w0rd'') \<in> set broken_secrets" by code_simp
  have h2: "4 \<le> length (js ''p@ss w0rd'')" by code_simp
  have h3: "encodeURIComponent (js ''p@ss w0rd'') = Some (js ''p%40ss%20w0rd'')" by code_simp
  have h4: "cannotOverlap (js ''p%40ss%20w0rd'') REDACTED" by code_simp
  have g1: "(js ''BROKEN'', [0xD800, 0x61, 0x62, 0x63]) \<in> set broken_secrets" by code_simp
  have g2: "4 \<le> length [0xD800, 0x61, 0x62, 0x63 :: 16 word]" by simp
  have g3: "encodeURIComponent [0xD800, 0x61, 0x62, 0x63] = None" by code_simp
  from maskSecrets_redacts_encodings [OF h1 h2, of "js ''p%40ss%20w0rd''" "js ''login p%40ss%20w0rd''"]
       maskSecrets_redacts_encodings [OF g1 g2, of "js ''p%40ss%20w0rd''" "js ''login p%40ss%20w0rd''"]
       h1 h2 h3 h4 g1 g2 g3
  show ?thesis by simp
qed

text \<open>
  Claim C2 as stated fails: the URL form of \<open>pa ss*\<close> is \<open>pa%20ss*\<close>, which ends with the
  first character of the marker. In \<open>pa%20sscGEgc3Mq\<close> the base64 form \<open>cGEgc3Mq\<close> is replaced
  last, and the marker put in its place completes the URL form.
\<close>

theorem maskSecrets_leaks_url_form:
  "4 \<le> length (js ''pa ss*'') \<and>
   encodeURIComponent (js ''pa ss*'') = Some (js ''pa%20ss*'') \<and>
   toBase64 (js ''pa ss*'') = js ''cGEgc3Mq'' \<and>
   maskSecrets (js ''pa%20sscGEgc3Mq'') [(js ''PASS'', js ''pa ss*'')] = js ''pa%20ss***REDACTED***'' \<and>
   sublist (js ''pa%20ss*'') (js ''pa%20ss***REDACTED***'')"
  by code_simp

section \<open>The order of the secrets\<close>

text \<open>
  Claim C3, as the code has it. When every pattern of every secret cannot overlap the marker,
  and any two patterns of two different secret values are equal or cannot overlap each other
  (\<open>nonOverlapping\<close>), \<open>maskSecrets\<close> returns the same text for every order of the entries
  of the map.
\<close>

theorem maskSecrets_order:
  assumes "mset secrets' = mset secrets" and "nonOverlapping secrets"
  shows "maskSecrets t secrets' = maskSecrets t secrets"
proof -
  let ?f = "\<lambda>v. fold redact (patterns v)"
  from assms(2) have marker:
    "\<forall>v\<in>set (map snd secrets). \<forall>p\<in>set (patterns v). cannotOverlap p REDACTED"
    and apart:
    "\<forall>v\<in>set (map snd secrets). \<forall>w\<in>set (map snd secrets). v \<noteq> w \<longrightarrow>
       (\<forall>p\<in>set (patterns v). \<forall>q\<in>set (patterns w). p = q \<or> cannotOverlap p q)"
    by (simp_all add: nonOverlapping_def)
  have comm: "?f v \<circ> ?f w = ?f w \<circ> ?f v"
    if "v \<in> set (map snd secrets)" "w \<in> set (map snd secrets)" for v w
  proof (cases "v = w")
    case True
    then show ?thesis by simp
  next
    case False
    show ?thesis
    proof (rule fold_commute_pairwise)
      fix p q assume pq: "p \<in> set (patterns v)" "q \<in> set (patterns w)"
      from pq have "p \<noteq> []" "q \<noteq> []" by (auto dest: patterns_nonempty)
      moreover from apart that False pq have "p = q \<or> cannotOverlap p q" by blast
      moreover from marker that pq have "cannotOverlap p REDACTED" "cannotOverlap q REDACTED"
        by blast+
      ultimately show "redact p \<circ> redact q = redact q \<circ> redact p"
        by (rule redact_commute)
    qed
  qed
  from assms(1) have "mset (map snd secrets) = mset (map snd secrets')"
    by (metis mset_map)
  with comm have "fold ?f (map snd secrets) = fold ?f (map snd secrets')"
    by (rule fold_multiset_equiv)
  then show ?thesis by (simp add: maskSecrets_fold_values)
qed

theorem maskSecrets_order_witness:
  "mset (rev test_secrets) = mset test_secrets \<and> nonOverlapping test_secrets \<and>
   maskSecrets (js ''Keys: mysecretvalue123 and sk-abc123xyz'') (rev test_secrets) =
   maskSecrets (js ''Keys: mysecretvalue123 and sk-abc123xyz'') test_secrets"
proof -
  have h1: "mset (rev test_secrets) = mset test_secrets" by simp
  have h2: "nonOverlapping test_secrets"
    apply (simp add: nonOverlapping_def test_secrets_def patterns_SECRET_KEY patterns_API_TOKEN)
    apply code_simp
    done
  from maskSecrets_order [OF h1 h2] h1 h2 show ?thesis by simp
qed

text \<open>
  Claim C3 as stated fails for overlapping values: with the secrets \<open>ab\<close> and \<open>bc\<close>, the text
  \<open>abc\<close> becomes \<open>***REDACTED***c\<close> when \<open>ab\<close> comes first and \<open>a***REDACTED***\<close> when \<open>bc\<close>
  comes first.
\<close>

theorem maskSecrets_order_matters:
  "mset [(js ''B'', js ''bc''), (js ''A'', js ''ab'')] = mset [(js ''A'', js ''ab''), (js ''B'', js ''bc'')] \<and>
   maskSecrets (js ''abc'') [(js ''A'', js ''ab''), (js ''B'', js ''bc'')] = js ''***REDACTED***c'' \<and>
   maskSecrets (js ''abc'') [(js ''B'', js ''bc''), (js ''A'', js ''ab'')] = js ''a***REDACTED***''"
proof -
  have "maskSecrets (js ''abc'') [(js ''A'', js ''ab''), (js ''B'', js ''bc'')] = js ''***REDACTED***c''"
    by code_simp
  moreover have "maskSecrets (js ''abc'') [(js ''B'', js ''bc''), (js ''A'', js ''ab'')] = js ''a***REDACTED***''"
    by code_simp
  ultimately show ?thesis by simp
qed

section \<open>Truncation\<close>

text \<open>
  Claim C4, as the code has it. A text of at most 1048576 bytes is returned unchanged and
  not flagged. For a text of more bytes, the loop removes 1000 code units from the end at a
  time: the result is the prefix left after \<open>k \<ge> 1\<close> such steps, followed by the truncation
  notice once, and flagged; that prefix fits within 1048576 minus the bytes of the notice,
  and the prefix left after fewer steps does not.
\<close>

theorem truncateOutput_steps:
  "(int (byteLength s) \<le> MAX_OUTPUT_BYTES \<longrightarrow>
      truncateOutput s MAX_OUTPUT_BYTES = Some (s, False)) \<and>
   (MAX_OUTPUT_BYTES < int (byteLength t) \<longrightarrow>
      (\<exists>k\<ge>1. truncateOutput t MAX_OUTPUT_BYTES =
                Some (take (length t - 1000 * k) t @ TRUNCATION_MESSAGE, True) \<and>
             int (byteLength (take (length t - 1000 * k) t)) \<le>
               MAX_OUTPUT_BYTES - int (byteLength TRUNCATION_MESSAGE) \<and>
             (\<forall>j<k. MAX_OUTPUT_BYTES - int (byteLength TRUNCATION_MESSAGE) <
                      int (byteLength (take (length t - 1000 * j) t)))))"
proof -
  have m: "int (byteLength TRUNCATION_MESSAGE) \<le> MAX_OUTPUT_BYTES"
    by (simp add: byteLength_TRUNCATION_MESSAGE MAX_OUTPUT_BYTES_def)
  have big: "\<exists>k\<ge>1. truncateOutput t MAX_OUTPUT_BYTES =
                Some (take (length t - 1000 * k) t @ TRUNCATION_MESSAGE, True) \<and>
             int (byteLength (take (length t - 1000 * k) t)) \<le>
               MAX_OUTPUT_BYTES - int (byteLength TRUNCATION_MESSAGE) \<and>
             (\<forall>j<k. MAX_OUTPUT_BYTES - int (byteLength TRUNCATION_MESSAGE) <
                      int (byteLength (take (length t - 1000 * j) t)))"
    if gt: "MAX_OUTPUT_BYTES < int (byteLength t)"
  proof -
    from truncateWhile_steps [OF m, of t] obtain k where k:
      "truncateWhile MAX_OUTPUT_BYTES t = Some (take (length t - 1000 * k) t)"
      "fits MAX_OUTPUT_BYTES (take (length t - 1000 * k) t)"
      "\<forall>j<k. \<not> fits MAX_OUTPUT_BYTES (take (length t - 1000 * j) t)"
      by blast
    have "k \<noteq> 0"
    proof
      assume "k = 0"
      with k(2) gt show False by (simp add: fits_def)
    qed
    then have "1 \<le> k" by simp
    moreover from gt k(1) have "truncateOutput t MAX_OUTPUT_BYTES =
        Some (take (length t - 1000 * k) t @ TRUNCATION_MESSAGE, True)"
      by (simp add: truncateOutput_def Let_def)
    moreover note k(2,3)
    ultimately show ?thesis unfolding fits_def by (intro exI [of _ k]) (simp add: not_le)
  qed
  show ?thesis using big by (simp add: truncateOutput_small)
qed

theorem truncateOutput_steps_witness:
  "int (byteLength (js ''hello'')) \<le> MAX_OUTPUT_BYTES \<and>
   truncateOutput (js ''hello'') MAX_OUTPUT_BYTES = Some (js ''hello'', False) \<and>
   MAX_OUTPUT_BYTES < int (byteLength (replicate 1048577 0x61)) \<and>
   (\<exists>k\<ge>1. truncateOutput (replicate 1048577 0x61) MAX_OUTPUT_BYTES =
             Some (take (length (replicate 1048577 (0x61 :: 16 word)) - 1000 * k)
                     (replicate 1048577 0x61) @ TRUNCATION_MESSAGE, True) \<and>
           int (byteLength (take (length (replicate 1048577 (0x61 :: 16 word)) - 1000 * k)
                              (replicate 1048577 0x61))) \<le>
             MAX_OUTPUT_BYTES - int (byteLength TRUNCATION_MESSAGE) \<and>
           (\<forall>j<k. MAX_OUTPUT_BYTES - int (byteLength TRUNCATION_MESSAGE) <
                    int (byteLength (take (length (replicate 1048577 (0x61 :: 16 word)) - 1000 * j)
                                       (replicate 1048577 0x61)))))"
proof -
  have h1: "int (byteLength (js ''hello'')) \<le> MAX_OUTPUT_BYTES" by code_simp
  have h2: "MAX_OUTPUT_BYTES < int (byteLength (replicate 1048577 0x61))"
    by (simp add: byteLength_letters MAX_OUTPUT_BYTES_def)
  from truncateOutput_steps [of "js ''hello''" "replicate 1048577 0x61"] h1 h2
  show ?thesis by blast
qed

text \<open>
  Claim C4 as stated fails: of 1048577 letters \<open>a\<close> the loop keeps 1047577, although the
  prefix of 1048535 letters fits as well and is longer.
\<close>

theorem truncateOutput_not_largest_prefix:
  "MAX_OUTPUT_BYTES < int (byteLength (replicate 1048577 0x61)) \<and>
   truncateOutput (replicate 1048577 0x61) MAX_OUTPUT_BYTES =
     Some (replicate 1047577 0x61 @ TRUNCATION_MESSAGE, True) \<and>
   prefix (replicate 1048535 0x61) (replicate 1048577 (0x61 :: 16 word)) \<and>
   int (byteLength (replicate 1048535 0x61)) \<le>
     MAX_OUTPUT_BYTES - int (byteLength TRUNCATION_MESSAGE) \<and>
   length (replicate 1047577 (0x61 :: 16 word)) < length (replicate 1048535 (0x61 :: 16 word))"
proof -
  have w: "truncateWhile MAX_OUTPUT_BYTES (replicate 1048577 0x61) =
      Some (replicate (1048577 - 1000) 0x61)"
    by (rule truncateWhile_letters) (simp_all add: MAX_OUTPUT_BYTES_def)
  have p: "prefix (replicate 1048535 0x61) (replicate 1048577 (0x61 :: 16 word))"
    by (rule prefix_replicate) simp
  show ?thesis
    using w p
    by (simp add: truncateOutput_def Let_def byteLength_letters byteLength_TRUNCATION_MESSAGE
          MAX_OUTPUT_BYTES_def)
qed

text \<open>
  Claim C5 fails on the code. The text of 262144 copies of U+1F600 (a surrogate pair, four
  bytes in UTF-8) followed by \<open>b\<close> is well formed and has 1048577 bytes; the loop cuts 1000
  code units, which is between the two halves of a pair, and the returned text has an
  unpaired surrogate in front of the notice.
\<close>

theorem truncateOutput_splits_surrogate_pair:
  "isWellFormed (concat (replicate 262144 [0xD83D, 0xDE00]) @ [0x62]) \<and>
   truncateOutput (concat (replicate 262144 [0xD83D, 0xDE00]) @ [0x62]) MAX_OUTPUT_BYTES =
     Some (concat (replicate 261644 [0xD83D, 0xDE00]) @ [0xD83D] @ TRUNCATION_MESSAGE, True) \<and>
   \<not> isWellFormed (concat (replicate 261644 [0xD83D, 0xDE00]) @ [0xD83D] @ TRUNCATION_MESSAGE)"
proof -
  have one: "byteLength [0x62] = 1" by code_simp
  have a: "isWellFormed [0x62]" by code_simp
  have b: "\<not> isWellFormed ([0xD83D] @ TRUNCATION_MESSAGE)"
    by (simp add: TRUNCATION_MESSAGE_def isHighSurrogate_def isLowSurrogate_def)
  have w: "truncateWhile MAX_OUTPUT_BYTES (concat (replicate 262144 [0xD83D, 0xDE00]) @ [0x62]) =
      Some (concat (replicate (262144 - 500) [0xD83D, 0xDE00]) @ [0xD83D])"
    by (rule truncateWhile_pairs) (simp_all add: MAX_OUTPUT_BYTES_def)
  have t: "truncateOutput (concat (replicate 262144 [0xD83D, 0xDE00]) @ [0x62]) MAX_OUTPUT_BYTES =
     Some (concat (replicate 261644 [0xD83D, 0xDE00]) @ [0xD83D] @ TRUNCATION_MESSAGE, True)"
    using w by (simp add: truncateOutput_def Let_def byteLength_pairs one MAX_OUTPUT_BYTES_def)
  from a b t show ?thesis by (simp only: isWellFormed_pairs simp_thms)
qed

section \<open>Runs of \<open>injectRun\<close>\<close>

lemma MESSAGE_below_MAX: "int (byteLength TRUNCATION_MESSAGE) \<le> MAX_OUTPUT_BYTES"
  by (simp add: byteLength_TRUNCATION_MESSAGE MAX_OUTPUT_BYTES_def)

lemma onClose_result:
  "\<exists>so sc se ec w.
     truncateOutput (stdoutText c) MAX_OUTPUT_BYTES = Some (so, sc) \<and>
     truncateOutput (stderrText c) MAX_OUTPUT_BYTES = Some (se, ec) \<and>
     onClose secrets c code =
       Some \<lparr>content = Json \<lparr>exitCode = (case code of None \<Rightarrow> 1 | Some n \<Rightarrow> n),
                               stdout = maskSecrets so secrets,
                               stderr = maskSecrets se secrets,
                               secretsInjected = length secrets,
                               warnings = w\<rparr>,
             isError = ((case code of None \<Rightarrow> 1 | Some n \<Rightarrow> n) \<noteq> 0)\<rparr>"
proof -
  from truncateOutput_total [OF MESSAGE_below_MAX, of "stdoutText c"]
  obtain so sc where a: "truncateOutput (stdoutText c) MAX_OUTPUT_BYTES = Some (so, sc)"
    by fastforce
  from truncateOutput_total [OF MESSAGE_below_MAX, of "stderrText c"]
  obtain se ec where b: "truncateOutput (stderrText c) MAX_OUTPUT_BYTES = Some (se, ec)"
    by fastforce
  show ?thesis
    unfolding onClose_def a b by (simp add: Let_def)
qed

lemma trim_Nil: "trim [] = []"
  by (simp add: trim_def)

lemma injectRun_invalid:
  "trim (command a) = [] \<Longrightarrow>
   injectRun w a =
     Some ([], Inr \<lparr>content = Text (js ''Error: command is required''), isError = True\<rparr>)"
  by (simp add: injectRun_def)

text \<open>What a call with a valid command does, collaborator by collaborator.\<close>

lemma injectRun_valid:
  assumes "trim (command a) \<noteq> []"
  shows "injectRun w a =
     (case getToken w of
        Inl e \<Rightarrow> Some ([GetToken], Inl (Propagated e))
      | Inr token \<Rightarrow>
         (case getRepository w of
            Inl e \<Rightarrow> Some ([GetToken, GetRepository], Inl (Propagated e))
          | Inr repository \<Rightarrow>
             (case pullSecrets w repository (effectiveEnvironment (environment a)) token of
                Inl e \<Rightarrow>
                  Some ([GetToken, GetRepository,
                         PullSecrets repository (effectiveEnvironment (environment a)) token],
                        Inl (Propagated e))
              | Inr text \<Rightarrow>
                 (case spawn w (command a) (case args a of None \<Rightarrow> [] | Some l \<Rightarrow> l)
                         (processEnv w ++ map_of (parseEnvContent w text))
                         (effectiveTimeout (timeout a)) of
                    SpawnThrows e \<Rightarrow>
                      Some ([GetToken, GetRepository,
                             PullSecrets repository (effectiveEnvironment (environment a)) token,
                             Spawn (command a) (case args a of None \<Rightarrow> [] | Some l \<Rightarrow> l)
                               (effectiveTimeout (timeout a))],
                            Inl (Propagated e))
                  | EmitsError msg \<Rightarrow>
                      Some ([GetToken, GetRepository,
                             PullSecrets repository (effectiveEnvironment (environment a)) token,
                             Spawn (command a) (case args a of None \<Rightarrow> [] | Some l \<Rightarrow> l)
                               (effectiveTimeout (timeout a))],
                            Inl (FailedToExecute msg))
                  | TimesOut \<Rightarrow>
                      Some ([GetToken, GetRepository,
                             PullSecrets repository (effectiveEnvironment (environment a)) token,
                             Spawn (command a) (case args a of None \<Rightarrow> [] | Some l \<Rightarrow> l)
                               (effectiveTimeout (timeout a))],
                            Inl (CommandTimedOut (effectiveTimeout (timeout a))))
                  | Closes events code \<Rightarrow>
                      map_option
                        (\<lambda>r. ([GetToken, GetRepository,
                               PullSecrets repository (effectiveEnvironment (environment a)) token,
                               Spawn (command a) (case args a of None \<Rightarrow> [] | Some l \<Rightarrow> l)
                                 (effectiveTimeout (timeout a))],
                              Inr r))
                        (onClose (parseEnvContent w text)
                           (foldl onData
                              \<lparr>stdoutText = [], stderrText = [],
                               stdoutBytes = 0, stderrBytes = 0\<rparr> events)
                           code)))))"
proof -
  from assms have "command a \<noteq> []" by (auto simp: trim_Nil)
  with assms show ?thesis
    by (simp add: injectRun_def Let_def split: sum.splits childProcess.splits)
qed

lemma injectRun_effects:
  assumes "injectRun w a = Some (tr, r)" and "e \<in> set tr"
  shows "e = GetToken \<or> e = GetRepository \<or>
         (\<exists>repository token.
            e = PullSecrets repository (effectiveEnvironment (environment a)) token) \<or>
         (\<exists>argv. e = Spawn (command a) argv (effectiveTimeout (timeout a)))"
proof (cases "trim (command a) = []")
  case True
  with assms show ?thesis by (simp add: injectRun_invalid)
next
  case False
  from assms show ?thesis
    unfolding injectRun_valid [OF False]
    by (auto split: sum.splits childProcess.splits)
qed

lemma maskSecrets_no_secrets: "maskSecrets t [] = t"
  by (simp add: maskSecrets_def)

text \<open>The runs of the test world, evaluated.\<close>

lemma injectRun_echo_hello:
  "injectRun test_world echo_hello =
     Some ([GetToken, GetRepository,
            PullSecrets (js ''owner/repo'') (js ''development'') (js ''mock-token''),
            Spawn (js ''echo'') [js ''hello''] 300000],
           Inr \<lparr>content = Json \<lparr>exitCode = 0, stdout = js ''hello'' @ [0x0A], stderr = [],
                                 secretsInjected = 2, warnings = None\<rparr>,
                 isError = False\<rparr>)"
  by code_simp

lemma injectRun_run_false:
  "injectRun test_world run_false =
     Some ([GetToken, GetRepository,
            PullSecrets (js ''owner/repo'') (js ''development'') (js ''mock-token''),
            Spawn (js ''false'') [] 300000],
           Inr \<lparr>content = Json \<lparr>exitCode = 1, stdout = [], stderr = [],
                                 secretsInjected = 2, warnings = None\<rparr>,
                 isError = True\<rparr>)"
  by code_simp

lemma injectRun_no_secrets:
  "injectRun no_secrets_world echo_hello =
     Some ([GetToken, GetRepository,
            PullSecrets (js ''owner/repo'') (js ''development'') (js ''mock-token''),
            Spawn (js ''echo'') [js ''hello''] 300000],
           Inr \<lparr>content = Json \<lparr>exitCode = 0, stdout = js ''hello'' @ [0x0A], stderr = [],
                                 secretsInjected = 0, warnings = None\<rparr>,
                 isError = False\<rparr>)"
  by code_simp

lemma injectRun_empty_value:
  "injectRun empty_value_world echo_hello =
     Some ([GetToken, GetRepository,
            PullSecrets (js ''owner/repo'') (js ''development'') (js ''mock-token''),
            Spawn (js ''echo'') [js ''hello''] 300000],
           Inr \<lparr>content = Json \<lparr>exitCode = 0, stdout = js ''hello'' @ [0x0A], stderr = [],
                                 secretsInjected = 1, warnings = None\<rparr>,
                 isError = False\<rparr>)"
  by code_simp

lemma test_world_fetch:
  "getToken test_world = Inr (js ''mock-token'')"
  "getRepository test_world = Inr (js ''owner/repo'')"
  "pullSecrets test_world repository env_name token = Inr mock_content"
  "parseEnvContent test_world mock_content = test_secrets"
  by (simp_all add: test_world_def)

lemma no_secrets_world_fetch:
  "getToken no_secrets_world = Inr (js ''mock-token'')"
  "getRepository no_secrets_world = Inr (js ''owner/repo'')"
  "pullSecrets no_secrets_world repository env_name token = Inr []"
  "parseEnvContent no_secrets_world [] = []"
  by (simp_all add: no_secrets_world_def test_world_def mock_content_def)

section \<open>The timeout\<close>

text \<open>
  Claim C6, as the code has it. The timeout handed to the process runner is 300000 ms when
  \<open>timeout\<close> is absent or \<open>0\<close>, and \<open>min(timeout, 300000)\<close> for every other integer; so it is
  the specification's \<open>min(timeoutMs ?? 300000, 300000)\<close> for every request except \<open>0\<close>.
  Every \<open>spawn\<close> a call makes carries this timeout.
\<close>

theorem effectiveTimeout_capped:
  "effectiveTimeout None = 300000 \<and> effectiveTimeout (Some 0) = 300000 \<and>
   (ms \<noteq> 0 \<longrightarrow> effectiveTimeout (Some ms) = min ms 300000) \<and>
   (t \<noteq> Some 0 \<longrightarrow> effectiveTimeout t = specTimeout t) \<and>
   (injectRun w a = Some (tr, r) \<longrightarrow> Spawn c argv used \<in> set tr \<longrightarrow>
      used = effectiveTimeout (timeout a))"
proof -
  have "used = effectiveTimeout (timeout a)"
    if "injectRun w a = Some (tr, r)" "Spawn c argv used \<in> set tr"
    using injectRun_effects [OF that] by auto
  moreover have "effectiveTimeout t = specTimeout t" if "t \<noteq> Some 0"
    using that by (cases t) (simp_all add: effectiveTimeout_def specTimeout_def DEFAULT_TIMEOUT_MS_def)
  ultimately show ?thesis
    by (simp add: effectiveTimeout_def DEFAULT_TIMEOUT_MS_def)
qed

theorem effectiveTimeout_capped_witness:
  "(600000 :: int) \<noteq> 0 \<and> effectiveTimeout (Some 600000) = min 600000 300000 \<and>
   Some 600000 \<noteq> Some (0 :: int) \<and>
   effectiveTimeout (Some 600000) = specTimeout (Some 600000) \<and>
   injectRun test_world echo_hello =
     Some ([GetToken, GetRepository,
            PullSecrets (js ''owner/repo'') (js ''development'') (js ''mock-token''),
            Spawn (js ''echo'') [js ''hello''] 300000],
           Inr \<lparr>content = Json \<lparr>exitCode = 0, stdout = js ''hello'' @ [0x0A], stderr = [],
                                 secretsInjected = 2, warnings = None\<rparr>,
                 isError = False\<rparr>) \<and>
   Spawn (js ''echo'') [js ''hello''] 300000 \<in>
     set [GetToken, GetRepository,
          PullSecrets (js ''owner/repo'') (js ''development'') (js ''mock-token''),
          Spawn (js ''echo'') [js ''hello''] 300000] \<and>
   300000 = effectiveTimeout (timeout echo_hello)"
proof -
  let ?tr = "[GetToken, GetRepository,
          PullSecrets (js ''owner/repo'') (js ''development'') (js ''mock-token''),
          Spawn (js ''echo'') [js ''hello''] 300000]"
  let ?r = "Inr \<lparr>content = Json \<lparr>exitCode = 0, stdout = js ''hello'' @ [0x0A], stderr = [],
                                 secretsInjected = 2, warnings = None\<rparr>,
                 isError = False\<rparr> :: error + callToolResult"
  have run: "injectRun test_world echo_hello = Some (?tr, ?r)"
    by (rule injectRun_echo_hello)
  have h: "Spawn (js ''echo'') [js ''hello''] 300000 \<in> set ?tr" by simp
  from effectiveTimeout_capped [where ms = 600000 and t = "Some 600000" and w = test_world
      and a = echo_hello and tr = ?tr and r = ?r and c = "js ''echo''"
      and argv = "[js ''hello'']" and used = 300000]
    run h
  show ?thesis by simp
qed

text \<open>
  Claim C6 as stated fails at \<open>timeout = 0\<close>: \<open>||\<close> takes \<open>0\<close> for absent, so the code uses
  300000 ms where \<open>min(0 ?? 300000, 300000)\<close> is \<open>0\<close>.
\<close>

theorem effectiveTimeout_zero:
  "effectiveTimeout (Some 0) = 300000 \<and> specTimeout (Some 0) = 0"
  by (simp add: effectiveTimeout_def specTimeout_def DEFAULT_TIMEOUT_MS_def)

section \<open>The count of injected secrets\<close>

text \<open>
  Claim C7, as the code has it. In the result of a completed run, \<open>secretsInjected\<close> is the
  number of entries of the fetched map, whatever their values; it is the number of
  non-empty values when no value is empty, and \<open>0\<close> for the empty map, in which case the
  redaction pass returns its text unchanged.
\<close>

theorem secretsInjected_counts_entries:
  assumes "injectRun w a = Some (tr, Inr r)" and "content r = Json resp"
    and "getToken w = Inr token" and "getRepository w = Inr repository"
    and "pullSecrets w repository (effectiveEnvironment (environment a)) token = Inr text"
  shows "secretsInjected resp = length (parseEnvContent w text) \<and>
         (list_all (\<lambda>v. v \<noteq> []) (map snd (parseEnvContent w text)) \<longrightarrow>
            secretsInjected resp =
              length (filter (\<lambda>v. v \<noteq> []) (map snd (parseEnvContent w text)))) \<and>
         (parseEnvContent w text = [] \<longrightarrow> secretsInjected resp = 0) \<and>
         maskSecrets t [] = t"
proof -
  have valid: "trim (command a) \<noteq> []"
  proof
    assume "trim (command a) = []"
    from injectRun_invalid [OF this, of w] assms(1,2) show False by auto
  qed
  have n: "secretsInjected resp = length (parseEnvContent w text)"
  proof (cases "spawn w (command a) (case args a of None \<Rightarrow> [] | Some l \<Rightarrow> l)
                  (processEnv w ++ map_of (parseEnvContent w text))
                  (effectiveTimeout (timeout a))")
    case (SpawnThrows e)
    with assms show ?thesis by (simp add: injectRun_valid [OF valid])
  next
    case (EmitsError msg)
    with assms show ?thesis by (simp add: injectRun_valid [OF valid])
  next
    case TimesOut
    with assms show ?thesis by (simp add: injectRun_valid [OF valid])
  next
    case (Closes events code)
    from onClose_result [of "foldl onData
        \<lparr>stdoutText = [], stderrText = [], stdoutBytes = 0, stderrBytes = 0\<rparr> events"
        "parseEnvContent w text" code]
      assms Closes
    show ?thesis by (auto simp: injectRun_valid [OF valid])
  qed
  have "length (filter (\<lambda>v. v \<noteq> []) vs) = length vs" if "list_all (\<lambda>v. v \<noteq> []) vs"
    for vs :: "jsstring list"
    using that by (induction vs) simp_all
  from this [of "map snd (parseEnvContent w text)"] n show ?thesis
    by (simp add: maskSecrets_no_secrets)
qed

theorem secretsInjected_counts_entries_witness:
  "injectRun test_world echo_hello =
     Some ([GetToken, GetRepository,
            PullSecrets (js ''owner/repo'') (js ''development'') (js ''mock-token''),
            Spawn (js ''echo'') [js ''hello''] 300000],
           Inr \<lparr>content = Json \<lparr>exitCode = 0, stdout = js ''hello'' @ [0x0A], stderr = [],
                                 secretsInjected = 2, warnings = None\<rparr>,
                 isError = False\<rparr>) \<and>
   getToken test_world = Inr (js ''mock-token'') \<and>
   getRepository test_world = Inr (js ''owner/repo'') \<and>
   pullSecrets test_world (js ''owner/repo'') (effectiveEnvironment (environment echo_hello))
     (js ''mock-token'') = Inr mock_content \<and>
   list_all (\<lambda>v. v \<noteq> []) (map snd (parseEnvContent test_world mock_content)) \<and>
   (2 :: nat) = length (parseEnvContent test_world mock_content) \<and>
   (2 :: nat) = length (filter (\<lambda>v. v \<noteq> []) (map snd (parseEnvContent test_world mock_content))) \<and>
   injectRun no_secrets_world echo_hello =
     Some ([GetToken, GetRepository,
            PullSecrets (js ''owner/repo'') (js ''development'') (js ''mock-token''),
            Spawn (js ''echo'') [js ''hello''] 300000],
           Inr \<lparr>content = Json \<lparr>exitCode = 0, stdout = js ''hello'' @ [0x0A], stderr = [],
                                 secretsInjected = 0, warnings = None\<rparr>,
                 isError = False\<rparr>) \<and>
   pullSecrets no_secrets_world (js ''owner/repo'') (effectiveEnvironment (environment echo_hello))
     (js ''mock-token'') = Inr [] \<and>
   parseEnvContent no_secrets_world [] = []"
proof -
  let ?resp = "\<lparr>exitCode = 0, stdout = js ''hello'' @ [0x0A], stderr = [],
                secretsInjected = 2, warnings = None\<rparr>"
  let ?none = "\<lparr>exitCode = 0, stdout = js ''hello'' @ [0x0A], stderr = [],
                secretsInjected = 0, warnings = None\<rparr>"
  have c: "content \<lparr>content = Json ?resp, isError = False\<rparr> = Json ?resp" by simp
  have cn: "content \<lparr>content = Json ?none, isError = False\<rparr> = Json ?none" by simp
  have ne: "list_all (\<lambda>v. v \<noteq> []) (map snd (parseEnvContent test_world mock_content))"
    unfolding test_world_fetch by code_simp
  have p: "pullSecrets test_world (js ''owner/repo'')
      (effectiveEnvironment (environment echo_hello)) (js ''mock-token'') = Inr mock_content"
    by (rule test_world_fetch)
  have p0: "pullSecrets no_secrets_world (js ''owner/repo'')
      (effectiveEnvironment (environment echo_hello)) (js ''mock-token'') = Inr []"
    by (rule no_secrets_world_fetch)
  from secretsInjected_counts_entries
         [OF injectRun_echo_hello c test_world_fetch(1,2) p, of "[]"]
       secretsInjected_counts_entries
         [OF injectRun_no_secrets cn no_secrets_world_fetch(1,2) p0, of "[]"]
       ne injectRun_echo_hello injectRun_no_secrets
  show ?thesis by (simp add: test_world_fetch no_secrets_world_fetch)
qed

text \<open>
  Claim C7 as stated fails for a map with an empty value: with the single secret \<open>EMPTY\<close>
  of value \<open>''\<close>, the count is \<open>1\<close> although no value is non-empty.
\<close>

theorem secretsInjected_counts_empty_value:
  "injectRun empty_value_world echo_hello =
     Some ([GetToken, GetRepository,
            PullSecrets (js ''owner/repo'') (js ''development'') (js ''mock-token''),
            Spawn (js ''echo'') [js ''hello''] 300000],
           Inr \<lparr>content = Json \<lparr>exitCode = 0, stdout = js ''hello'' @ [0x0A], stderr = [],
                                 secretsInjected = 1, warnings = None\<rparr>,
                 isError = False\<rparr>) \<and>
   parseEnvContent empty_value_world mock_content = [(js ''EMPTY'', [])] \<and>
   length (filter (\<lambda>v. v \<noteq> []) (map snd [(js ''EMPTY'', [] :: jsstring)])) = 0"
  using injectRun_empty_value by (simp add: empty_value_world_def)

section \<open>Validation of the command\<close>

text \<open>
  Claim C8. A call whose command is empty after trimming returns the validation failure
  without any call to a collaborator: no token, no repository, no fetch, no process. A
  call whose trimmed command is not empty goes on: it settles, and its first effect is the
  retrieval of the token.
\<close>

theorem injectRun_validates_command:
  "(trim (command a) = [] \<longrightarrow>
      injectRun w a =
        Some ([], Inr \<lparr>content = Text (js ''Error: command is required''), isError = True\<rparr>)) \<and>
   (trim (command b) \<noteq> [] \<longrightarrow> (\<exists>tr r. injectRun w b = Some (GetToken # tr, r)))"
proof -
  have "\<exists>tr r. injectRun w b = Some (GetToken # tr, r)" if valid: "trim (command b) \<noteq> []"
  proof (cases "getToken w")
    case (Inl e)
    then show ?thesis by (simp add: injectRun_valid [OF valid])
  next
    case token: (Inr token)
    show ?thesis
    proof (cases "getRepository w")
      case (Inl e)
      with token show ?thesis by (simp add: injectRun_valid [OF valid])
    next
      case repo: (Inr repository)
      show ?thesis
      proof (cases "pullSecrets w repository (effectiveEnvironment (environment b)) token")
        case (Inl e)
        with token repo show ?thesis by (simp add: injectRun_valid [OF valid])
      next
        case body: (Inr body)
        show ?thesis
        proof (cases "spawn w (command b) (case args b of None \<Rightarrow> [] | Some l \<Rightarrow> l)
                  (processEnv w ++ map_of (parseEnvContent w body))
                  (effectiveTimeout (timeout b))")
          case (SpawnThrows e)
          with token repo body show ?thesis by (simp add: injectRun_valid [OF valid])
        next
          case (EmitsError msg)
          with token repo body show ?thesis by (simp add: injectRun_valid [OF valid])
        next
          case TimesOut
          with token repo body show ?thesis by (simp add: injectRun_valid [OF valid])
        next
          case (Closes events code)
          from onClose_result [of "foldl onData
              \<lparr>stdoutText = [], stderrText = [], stdoutBytes = 0, stderrBytes = 0\<rparr> events"
              "parseEnvContent w body" code]
          obtain res where "onClose (parseEnvContent w body)
              (foldl onData \<lparr>stdoutText = [], stderrText = [], stdoutBytes = 0, stderrBytes = 0\<rparr>
                 events) code = Some res"
            by blast
          with token repo body Closes show ?thesis by (simp add: injectRun_valid [OF valid])
        qed
      qed
    qed
  qed
  then show ?thesis by (simp add: injectRun_invalid)
qed

theorem injectRun_validates_command_witness:
  "trim (command blank_command) = [] \<and>
   injectRun test_world blank_command =
     Some ([], Inr \<lparr>content = Text (js ''Error: command is required''), isError = True\<rparr>) \<and>
   trim (command echo_hello) \<noteq> [] \<and>
   (\<exists>tr r. injectRun test_world echo_hello = Some (GetToken # tr, r))"
proof -
  have h1: "trim (command blank_command) = []" by code_simp
  have h2: "trim (command echo_hello) \<noteq> []" by code_simp
  from injectRun_validates_command [of blank_command test_world echo_hello] h1 h2
  show ?thesis by simp
qed

section \<open>What the capture holds\<close>









section \<open>Exit codes\<close>







lemma captured_leak:
  "captured (printed (js ''The secret is mysecretvalue123'') (js ''token sk-abc123xyz'')) =
     \<lparr>stdoutText = js ''The secret is mysecretvalue123'', stderrText = js ''token sk-abc123xyz'',
      stdoutBytes = 30, stderrBytes = 18\<rparr>"
  by code_simp





section \<open>The default environment\<close>

text \<open>
  Claim C10. An empty environment name is treated as an absent one: both give
  \<open>development\<close>, the two calls behave the same, and every fetch of a call with an empty
  environment name asks for \<open>development\<close>.
\<close>

theorem empty_environment_is_default:
  "effectiveEnvironment (Some []) = js ''development'' \<and>
   effectiveEnvironment None = js ''development'' \<and>
   injectRun w (a\<lparr>environment := Some []\<rparr>) = injectRun w (a\<lparr>environment := None\<rparr>) \<and>
   (environment b = Some [] \<longrightarrow> injectRun w b = Some (tr, r) \<longrightarrow>
      PullSecrets repository used token \<in> set tr \<longrightarrow> used = js ''development'')"
proof -
  have "used = js ''development''"
    if "environment b = Some []" "injectRun w b = Some (tr, r)"
       "PullSecrets repository used token \<in> set tr"
    using injectRun_effects [OF that(2,3)] that(1) by (auto simp: effectiveEnvironment_def)
  moreover have "injectRun w (a\<lparr>environment := Some []\<rparr>) = injectRun w (a\<lparr>environment := None\<rparr>)"
  proof (cases "trim (command a) = []")
    case True
    then show ?thesis by (simp add: injectRun_invalid)
  next
    case False
    then have v: "trim (command (a\<lparr>environment := Some []\<rparr>)) \<noteq> []"
      "trim (command (a\<lparr>environment := None\<rparr>)) \<noteq> []"
      by simp_all
    show ?thesis
      unfolding injectRun_valid [OF v(1)] injectRun_valid [OF v(2)]
      by (simp add: effectiveEnvironment_def split: sum.splits childProcess.splits)
  qed
  moreover have "effectiveEnvironment (Some []) = js ''development''"
    "effectiveEnvironment None = js ''development''"
    by (simp_all add: effectiveEnvironment_def)
  ultimately show ?thesis by blast
qed

theorem empty_environment_is_default_witness:
  "environment run_false = Some [] \<and>
   injectRun test_world run_false =
     Some ([GetToken, GetRepository,
            PullSecrets (js ''owner/repo'') (js ''development'') (js ''mock-token''),
            Spawn (js ''false'') [] 300000],
           Inr \<lparr>content = Json \<lparr>exitCode = 1, stdout = [], stderr = [],
                                 secretsInjected = 2, warnings = None\<rparr>,
                 isError = True\<rparr>) \<and>
   PullSecrets (js ''owner/repo'') (js ''development'') (js ''mock-token'') \<in>
     set [GetToken, GetRepository,
          PullSecrets (js ''owner/repo'') (js ''development'') (js ''mock-token''),
          Spawn (js ''false'') [] 300000] \<and>
   injectRun test_world (run_false\<lparr>environment := Some []\<rparr>) =
     injectRun test_world (run_false\<lparr>environment := None\<rparr>)"
proof -
  let ?tr = "[GetToken, GetRepository,
          PullSecrets (js ''owner/repo'') (js ''development'') (js ''mock-token''),
          Spawn (js ''false'') [] 300000]"
  let ?r = "Inr \<lparr>content = Json \<lparr>exitCode = 1, stdout = [], stderr = [],
                                 secretsInjected = 2, warnings = None\<rparr>,
                 isError = True\<rparr> :: error + callToolResult"
  have h1: "environment run_false = Some []" by (simp add: run_false_def)
  have h2: "injectRun test_world run_false = Some (?tr, ?r)" by (rule injectRun_run_false)
  have h3: "PullSecrets (js ''owner/repo'') (js ''development'') (js ''mock-token'') \<in> set ?tr"
    by simp
  from empty_environment_is_default [where w = test_world and a = run_false and b = run_false
      and tr = ?tr and r = ?r and repository = "js ''owner/repo''"
      and used = "js ''development''" and token = "js ''mock-token''"]
    h1 h2 h3
  show ?thesis by simp
qed

end
